theory Spec2Isabelle
  imports Complex_Main "HOL-Library.AList" "HOL-Library.Multiset"
begin

section \<open>IntelligentCache (src/knmi\_epw/utils.py)\<close>

text \<open>
  The cache keeps one payload file per entry in its directory and an index
  (\<open>self.metadata\<close>, a Python dict) of per-key records. A Python dict keeps
  insertion order and that order decides ties in \<open>sorted\<close>, so the index is an
  association list: \<open>AList.update\<close> overwrites in place or appends at the end,
  as dict assignment does, and \<open>AList.delete\<close> is \<open>del\<close>.

  Files hold bytes (\<open>string\<close>); the directory is a map from file name to
  content. Wall-clock time (\<open>time.time()\<close>) is a real number handed to each
  operation as \<open>now\<close>: one operation is taken to read the same instant
  throughout. File-system calls other than the payload writers are taken not to
  fail. Log output of the cache is not modelled.
\<close>

type_synonym path = string
type_synonym bytes = string

text \<open>
  One index record. Every field is read with \<open>dict.get\<close> and a default in the
  source, and the index is loaded from a JSON file, so each field may be missing.
\<close>

record meta =
  created_time :: "real option"
  last_access :: "real option"
  ttl :: "int option"
  data_type :: "string option"
  checksum :: "string option"
  size_m :: "int option"

record cache =
  max_size_bytes :: int
  default_ttl :: int
  metadata :: "(string \<times> meta) list"
  files :: "path \<rightharpoonup> bytes"
  saved_metadata :: "(string \<times> meta) list"

text \<open>
  What a payload writer (\<open>pickle.dump\<close>, \<open>DataFrame.to_csv\<close>, \<open>json.dump\<close>)
  did: it wrote the bytes, or it raised, leaving the file untouched (\<open>None\<close>)
  or with some partial content.
\<close>

datatype write_result = Written bytes | Raised "bytes option"

text \<open>
  The library functions the cache calls, as parameters: the MD5 hex digest, the
  three serialisers with their loaders (\<open>None\<close>: the loader raised), and the two
  \<open>isinstance\<close> tests of the type auto-detection.
\<close>

record 'v env =
  md5_hex :: "bytes \<Rightarrow> string"
  pickle_dump :: "'v \<Rightarrow> write_result"
  pickle_load :: "bytes \<Rightarrow> 'v option"
  to_csv :: "'v \<Rightarrow> write_result"
  read_csv :: "bytes \<Rightarrow> 'v option"
  json_dump :: "'v \<Rightarrow> write_result"
  json_load :: "bytes \<Rightarrow> 'v option"
  is_DataFrame :: "'v \<Rightarrow> bool"
  is_dict_or_list :: "'v \<Rightarrow> bool"

text \<open>\<open>IntelligentCache.__init__\<close>, on an empty directory.\<close>

definition init_cache :: "int \<Rightarrow> int \<Rightarrow> cache" where
  "init_cache max_size_mb dttl =
     \<lparr>max_size_bytes = max_size_mb * 1024 * 1024, default_ttl = dttl,
      metadata = [], files = Map.empty, saved_metadata = []\<rparr>"

definition save_metadata :: "cache \<Rightarrow> cache" where
  "save_metadata c = c\<lparr>saved_metadata := metadata c\<rparr>"

text \<open>\<open>extension.get(data_type, '.pkl')\<close>\<close>

definition extension :: "string \<Rightarrow> string" where
  "extension dt =
     (if dt = ''pickle'' then ''.pkl''
      else if dt = ''csv'' then ''.csv''
      else if dt = ''json'' then ''.json''
      else ''.pkl'')"

definition get_cache_path :: "'v env \<Rightarrow> string \<Rightarrow> string \<Rightarrow> path" where
  "get_cache_path env key dt = md5_hex env key @ extension dt"

text \<open>The \<open>dict.get\<close> reads of a record, with the source's defaults.\<close>

definition meta_data_type :: "meta \<Rightarrow> string" where
  "meta_data_type m = (case data_type m of None \<Rightarrow> ''pickle'' | Some d \<Rightarrow> d)"

definition meta_last_access :: "meta \<Rightarrow> real" where
  "meta_last_access m = (case last_access m of None \<Rightarrow> 0 | Some t \<Rightarrow> t)"

definition meta_created_time :: "meta \<Rightarrow> real" where
  "meta_created_time m = (case created_time m of None \<Rightarrow> 0 | Some t \<Rightarrow> t)"

definition meta_ttl :: "cache \<Rightarrow> meta \<Rightarrow> int" where
  "meta_ttl c m = (case ttl m of None \<Rightarrow> default_ttl c | Some t \<Rightarrow> t)"

definition entry_path :: "'v env \<Rightarrow> string \<times> meta \<Rightarrow> path" where
  "entry_path env e = get_cache_path env (fst e) (meta_data_type (snd e))"

definition is_expired :: "cache \<Rightarrow> real \<Rightarrow> string \<Rightarrow> bool" where
  "is_expired c now key =
     (case map_of (metadata c) key of
        None \<Rightarrow> True
      | Some m \<Rightarrow> now - meta_created_time m > real_of_int (meta_ttl c m))"

text \<open>
  \<open>_verify_integrity\<close>: \<open>not expected_hash\<close> holds for a missing and for an
  empty checksum; \<open>calculate_file_hash\<close> is the MD5 digest of the file's bytes.
\<close>

definition verify_integrity :: "'v env \<Rightarrow> cache \<Rightarrow> string \<Rightarrow> path \<Rightarrow> bool" where
  "verify_integrity env c key file_path =
     (case map_of (metadata c) key of
        None \<Rightarrow> False
      | Some m \<Rightarrow>
         (case files c file_path of
            None \<Rightarrow> False
          | Some b \<Rightarrow>
             (case checksum m of
                None \<Rightarrow> False
              | Some expected_hash \<Rightarrow>
                  if expected_hash = [] then False
                  else md5_hex env b = expected_hash)))"

text \<open>
  \<open>_cleanup_expired\<close>. The loop runs over a snapshot of the keys; a key of the
  snapshot is still in the dict when its turn comes (keys of a dict are
  distinct), so the lookup \<open>self.metadata[key]\<close> finds it; the model leaves the
  state alone in the other, unreachable, case.
\<close>

fun cleanup_loop ::
  "'v env \<Rightarrow> real \<Rightarrow> string list \<Rightarrow> cache \<times> string list \<Rightarrow> cache \<times> string list" where
  "cleanup_loop env now [] st = st"
| "cleanup_loop env now (key # keys) (c, expired_keys) =
     (if is_expired c now key then
        (case map_of (metadata c) key of
           None \<Rightarrow> cleanup_loop env now keys (c, expired_keys @ [key])
         | Some m \<Rightarrow>
             cleanup_loop env now keys
               (c\<lparr>files := (files c)(get_cache_path env key (meta_data_type m) := None),
                  metadata := AList.delete key (metadata c)\<rparr>,
                expired_keys @ [key]))
      else cleanup_loop env now keys (c, expired_keys))"

definition cleanup_expired :: "'v env \<Rightarrow> real \<Rightarrow> cache \<Rightarrow> cache" where
  "cleanup_expired env now c =
     (case cleanup_loop env now (map fst (metadata c)) (c, []) of
        (c', expired_keys) \<Rightarrow> if expired_keys \<noteq> [] then save_metadata c' else c')"

text \<open>\<open>_enforce_size_limit\<close>\<close>

definition file_size :: "cache \<Rightarrow> path \<Rightarrow> int" where
  "file_size c p = (case files c p of None \<Rightarrow> 0 | Some b \<Rightarrow> int (length b))"

definition total_size :: "'v env \<Rightarrow> cache \<Rightarrow> int" where
  "total_size env c = sum_list (map (\<lambda>e. file_size c (entry_path env e)) (metadata c))"

fun evict_loop ::
  "'v env \<Rightarrow> (string \<times> meta) list \<Rightarrow> int \<times> nat \<times> cache \<Rightarrow> int \<times> nat \<times> cache" where
  "evict_loop env [] st = st"
| "evict_loop env (e # es) (tsize, removed_count, c) =
     (if tsize \<le> max_size_bytes c then (tsize, removed_count, c)
      else
        (case files c (entry_path env e) of
           None \<Rightarrow>
             evict_loop env es
               (tsize, removed_count, c\<lparr>metadata := AList.delete (fst e) (metadata c)\<rparr>)
         | Some b \<Rightarrow>
             evict_loop env es
               (tsize - int (length b), Suc removed_count,
                c\<lparr>files := (files c)(entry_path env e := None),
                  metadata := AList.delete (fst e) (metadata c)\<rparr>)))"

definition sorted_entries :: "cache \<Rightarrow> (string \<times> meta) list" where
  "sorted_entries c = sort_key (\<lambda>e. meta_last_access (snd e)) (metadata c)"

definition enforce_size_limit :: "'v env \<Rightarrow> cache \<Rightarrow> cache" where
  "enforce_size_limit env c =
     (if total_size env c \<le> max_size_bytes c then c
      else
        (case evict_loop env (sorted_entries c) (total_size env c, 0, c) of
           (tsize, removed_count, c') \<Rightarrow>
             if removed_count > 0 then save_metadata c' else c'))"

text \<open>
  \<open>get\<close>. Every \<open>return default\<close> of the source is \<open>Miss\<close>; \<open>cache_get_default\<close>
  is the function with the source's signature.
\<close>

datatype 'v lookup = Hit 'v | Miss

definition load_payload :: "'v env \<Rightarrow> string \<Rightarrow> bytes \<Rightarrow> 'v lookup" where
  "load_payload env dt b =
     (if dt = ''pickle'' then (case pickle_load env b of None \<Rightarrow> Miss | Some v \<Rightarrow> Hit v)
      else if dt = ''csv'' then (case read_csv env b of None \<Rightarrow> Miss | Some v \<Rightarrow> Hit v)
      else if dt = ''json'' then (case json_load env b of None \<Rightarrow> Miss | Some v \<Rightarrow> Hit v)
      else Miss)"

definition touch :: "string \<Rightarrow> real \<Rightarrow> (string \<times> meta) list \<Rightarrow> (string \<times> meta) list" where
  "touch key now md =
     map (\<lambda>e. if fst e = key then (fst e, (snd e)\<lparr>last_access := Some now\<rparr>) else e) md"

definition stored_data_type :: "cache \<Rightarrow> string \<Rightarrow> string" where
  "stored_data_type c key =
     (case map_of (metadata c) key of None \<Rightarrow> ''pickle'' | Some m \<Rightarrow> meta_data_type m)"

text \<open>
  The assignment \<open>self.metadata[key]['last_access'] = ...\<close> stands inside the
  \<open>try\<close>: on a missing key its \<open>KeyError\<close> would be caught and the default
  returned.
\<close>

definition cache_get :: "'v env \<Rightarrow> cache \<Rightarrow> real \<Rightarrow> string \<Rightarrow> 'v lookup \<times> cache" where
  "cache_get env c now key =
     (if is_expired c now key then (Miss, c)
      else
        let dt = stored_data_type c key;
            cache_path = get_cache_path env key dt
        in (case files c cache_path of
              None \<Rightarrow> (Miss, c)
            | Some b \<Rightarrow>
                if \<not> verify_integrity env c key cache_path then (Miss, c)
                else
                  (case map_of (metadata c) key of
                     None \<Rightarrow> (Miss, c)
                   | Some m \<Rightarrow>
                       (load_payload env dt b,
                        save_metadata (c\<lparr>metadata := touch key now (metadata c)\<rparr>)))))"

definition cache_get_default :: "'v env \<Rightarrow> cache \<Rightarrow> real \<Rightarrow> string \<Rightarrow> 'v \<Rightarrow> 'v \<times> cache" where
  "cache_get_default env c now key dflt =
     (case cache_get env c now key of
        (Hit v, c') \<Rightarrow> (v, c')
      | (Miss, c') \<Rightarrow> (dflt, c'))"

text \<open>\<open>set\<close>\<close>

definition detect_type :: "'v env \<Rightarrow> 'v \<Rightarrow> string \<Rightarrow> string" where
  "detect_type env v dt =
     (if dt = ''auto'' then
        (if is_DataFrame env v then ''csv''
         else if is_dict_or_list env v then ''json''
         else ''pickle'')
      else dt)"

text \<open>An unsupported type raises \<open>ValueError\<close> before any file is opened.\<close>

definition write_payload :: "'v env \<Rightarrow> string \<Rightarrow> 'v \<Rightarrow> write_result" where
  "write_payload env dt v =
     (if dt = ''pickle'' then pickle_dump env v
      else if dt = ''csv'' then to_csv env v
      else if dt = ''json'' then json_dump env v
      else Raised None)"

definition new_meta :: "'v env \<Rightarrow> real \<Rightarrow> int \<Rightarrow> string \<Rightarrow> bytes \<Rightarrow> meta" where
  "new_meta env now t dt b =
     \<lparr>created_time = Some now, last_access = Some now, ttl = Some t,
      data_type = Some dt, checksum = Some (md5_hex env b), size_m = Some (int (length b))\<rparr>"

text \<open>The state after the payload and its index record are written, before the sweeps.\<close>

definition store_entry ::
  "'v env \<Rightarrow> cache \<Rightarrow> real \<Rightarrow> string \<Rightarrow> int \<Rightarrow> string \<Rightarrow> bytes \<Rightarrow> cache" where
  "store_entry env c now key t dt b =
     save_metadata
       (c\<lparr>files := (files c)(get_cache_path env key dt \<mapsto> b),
          metadata := AList.update key (new_meta env now t dt b) (metadata c)\<rparr>)"

definition cache_set ::
  "'v env \<Rightarrow> cache \<Rightarrow> real \<Rightarrow> string \<Rightarrow> 'v \<Rightarrow> int option \<Rightarrow> string \<Rightarrow> cache" where
  "cache_set env c now key v ttl_arg dt_arg =
     (let t = (case ttl_arg of None \<Rightarrow> default_ttl c | Some t \<Rightarrow> t);
          dt = detect_type env v dt_arg
      in case write_payload env dt v of
           Raised None \<Rightarrow> c
         | Raised (Some partial) \<Rightarrow> c\<lparr>files := (files c)(get_cache_path env key dt \<mapsto> partial)\<rparr>
         | Written b \<Rightarrow>
             enforce_size_limit env (cleanup_expired env now (store_entry env c now key t dt b)))"

text \<open>\<open>has\<close>: the path is computed with the default data type, \<open>"pickle"\<close>.\<close>

definition cache_has :: "'v env \<Rightarrow> cache \<Rightarrow> real \<Rightarrow> string \<Rightarrow> bool" where
  "cache_has env c now key =
     (\<not> is_expired c now key \<and> files c (get_cache_path env key ''pickle'') \<noteq> None)"

text \<open>\<open>delete\<close>\<close>

definition cache_delete :: "'v env \<Rightarrow> cache \<Rightarrow> string \<Rightarrow> cache" where
  "cache_delete env c key =
     (case map_of (metadata c) key of
        None \<Rightarrow> c
      | Some m \<Rightarrow>
          save_metadata
            (c\<lparr>files := (files c)(get_cache_path env key (meta_data_type m) := None),
               metadata := AList.delete key (metadata c)\<rparr>))"

section \<open>Chunked reading and streaming processing (src/knmi\_epw/processor.py)\<close>

text \<open>
  A data frame is the list of its rows, each row with its index value, the
  timestamp. What pandas and pvlib do to the rows is a parameter of the model;
  the control flow around these calls (the loops, the \<open>try\<close> blocks, what is
  skipped and what is raised) is the source's.
\<close>

type_synonym ('ts, 'r) frame = "('ts \<times> 'r) list"

record weather_station =
  station_id :: string
  name :: string
  abbrev :: string
  latitude :: real
  longitude :: real

text \<open>
  The calls \<open>DataProcessor\<close> makes, with \<open>Inl e\<close> for a raised exception whose
  \<open>str\<close> is \<open>e\<close>:
  \<^item> \<open>read_csv_chunks\<close>: the chunk iterator of \<open>pd.read_csv(..., chunksize=...)\<close>,
    as the list of what it hands out; an \<open>Inl\<close> is the iterator (or the call
    that opens it) raising at that point;
  \<^item> \<open>prepare_chunk\<close>: the body of the inner \<open>try\<close> of \<open>read_knmi_data_chunked\<close>
    (column names, date and hour parsing, the datetime index);
  \<^item> \<open>feb29_range\<close>: \<open>pd.date_range\<close> over 29 February of the year, \<open>None\<close>
    when it raises (a year divisible by 4 that is no leap year);
  \<^item> \<open>transform_chunk\<close>: solar position, extraction of the weather variables,
    unit conversions, radiation components, quality fixes and filling, in a row;
  \<^item> \<open>parse_knmi_file\<close> and \<open>compute_weather\<close>: the bodies of the \<open>try\<close> blocks
    of \<open>read_knmi_data\<close> and \<open>process_weather_data\<close>;
  \<^item> \<open>required_columns_ok\<close>: the column checks of \<open>validate_processed_data\<close>,
    false also when they raise.
\<close>

record ('raw, 'ts, 'r) processor_env =
  file_exists :: "string \<Rightarrow> bool"
  read_csv_chunks :: "string \<Rightarrow> int \<Rightarrow> (string + 'raw) list"
  prepare_chunk :: "'raw \<Rightarrow> string + ('ts, 'r) frame"
  feb29_range :: "int \<Rightarrow> 'ts list option"
  transform_chunk :: "weather_station \<Rightarrow> ('ts, 'r) frame \<Rightarrow> string + ('ts, 'r) frame"
  parse_knmi_file :: "string \<Rightarrow> string + ('ts, 'r) frame"
  compute_weather :: "('ts, 'r) frame \<Rightarrow> weather_station \<Rightarrow> int \<Rightarrow> string + ('ts, 'r) frame"
  required_columns_ok :: "('ts, 'r) frame \<Rightarrow> bool"
  config_chunk_size :: int

text \<open>The warnings the two functions log: a chunk that was skipped, with its number
  and the error, and a failed removal of 29 February.\<close>

datatype log_entry = ChunkWarning nat string | Feb29Warning

text \<open>
  \<open>read_knmi_data_chunked\<close> is a generator. Its run is the list of what it does
  in order: yield a chunk, log a warning, or raise (which ends it). The
  consumer reads this list from the front and may stop early.
\<close>

datatype ('ts, 'r) event = Yield "('ts, 'r) frame" | Log log_entry | Abort string

fun chunk_events ::
  "('raw, 'ts, 'r) processor_env \<Rightarrow> nat \<Rightarrow> (string + 'raw) list \<Rightarrow> ('ts, 'r) event list" where
  "chunk_events p chunk_idx [] = []"
| "chunk_events p chunk_idx (Inl e # rest) =
     [Abort (''Chunked KNMI data reading failed: '' @ e)]"
| "chunk_events p chunk_idx (Inr raw # rest) =
     (case prepare_chunk p raw of
        Inl e \<Rightarrow> Log (ChunkWarning (chunk_idx + 1) e) # chunk_events p (chunk_idx + 1) rest
      | Inr chunk \<Rightarrow>
          if length chunk = 0 then chunk_events p (chunk_idx + 1) rest
          else Yield chunk # chunk_events p (chunk_idx + 1) rest)"

definition read_knmi_data_chunked ::
  "('raw, 'ts, 'r) processor_env \<Rightarrow> string \<Rightarrow> int option \<Rightarrow> ('ts, 'r) event list" where
  "read_knmi_data_chunked p file_path chunk_size_arg =
     (let chunk_size = (case chunk_size_arg of None \<Rightarrow> config_chunk_size p | Some n \<Rightarrow> n)
      in if \<not> file_exists p file_path then [Abort (''KNMI data file not found: '' @ file_path)]
         else chunk_events p 0 (read_csv_chunks p file_path chunk_size))"

text \<open>
  The loop of \<open>process_weather_data_streaming\<close> over the generator, with the
  list \<open>processed_chunks\<close> and the log. An exception of the generator or of the
  per-chunk processing leaves the loop: there is no \<open>try\<close> around the body.
\<close>

fun stream_loop ::
  "('raw, 'ts, 'r) processor_env \<Rightarrow> weather_station \<Rightarrow> int \<Rightarrow> ('ts, 'r) event list \<Rightarrow>
   ('ts, 'r) frame list \<times> log_entry list \<Rightarrow> (string + ('ts, 'r) frame list) \<times> log_entry list" where
  "stream_loop p station yr [] (processed_chunks, lg) = (Inr processed_chunks, lg)"
| "stream_loop p station yr (Abort e # evs) (processed_chunks, lg) = (Inl e, lg)"
| "stream_loop p station yr (Log l # evs) (processed_chunks, lg) =
     stream_loop p station yr evs (processed_chunks, lg @ [l])"
| "stream_loop p station yr (Yield chunk # evs) (processed_chunks, lg) =
     (case (if yr mod 4 = 0 then
              (case feb29_range p yr of
                 None \<Rightarrow> (chunk, lg @ [Feb29Warning])
               | Some labels \<Rightarrow> (filter (\<lambda>row. fst row \<notin> set labels) chunk, lg))
            else (chunk, lg)) of
        (chunk', lg') \<Rightarrow>
          if length chunk' = 0 then stream_loop p station yr evs (processed_chunks, lg')
          else
            (case transform_chunk p station chunk' of
               Inl e \<Rightarrow> (Inl e, lg')
             | Inr weather_vars \<Rightarrow>
                 stream_loop p station yr evs (processed_chunks @ [weather_vars], lg')))"

text \<open>
  \<open>process_weather_data_streaming\<close>: every exception inside the \<open>try\<close>, the
  one for an empty \<open>processed_chunks\<close> included, is raised again as a
  \<open>DataValidationError\<close>. \<open>pd.concat\<close> and \<open>sort_index\<close> are the concatenation
  sorted by timestamp; among rows of equal timestamp the order is pandas'
  choice, for which the model takes the stable one.
\<close>

definition process_weather_data_streaming ::
  "('raw, 'ts :: linorder, 'r) processor_env \<Rightarrow> string \<Rightarrow> weather_station \<Rightarrow> int \<Rightarrow> int option \<Rightarrow>
   (string + ('ts, 'r) frame) \<times> log_entry list" where
  "process_weather_data_streaming p file_path station yr chunk_size_arg =
     (let chunk_size = (case chunk_size_arg of None \<Rightarrow> config_chunk_size p | Some n \<Rightarrow> n)
      in case stream_loop p station yr (read_knmi_data_chunked p file_path (Some chunk_size)) ([], []) of
           (Inl e, lg) \<Rightarrow> (Inl (''Streaming weather data processing failed: '' @ e), lg)
         | (Inr processed_chunks, lg) \<Rightarrow>
             if processed_chunks = [] then
               (Inl (''Streaming weather data processing failed: ''
                      @ ''No data chunks were successfully processed''), lg)
             else (Inr (sort_key fst (concat processed_chunks)), lg))"

text \<open>\<open>read_knmi_data\<close>, \<open>process_weather_data\<close> (without its private cache of
  processed frames) and \<open>validate_processed_data\<close>, as far as the batch needs them.\<close>

definition read_knmi_data ::
  "('raw, 'ts, 'r) processor_env \<Rightarrow> string \<Rightarrow> string + ('ts, 'r) frame" where
  "read_knmi_data p file_path =
     (if \<not> file_exists p file_path then Inl (''KNMI data file not found: '' @ file_path)
      else (case parse_knmi_file p file_path of
              Inl e \<Rightarrow> Inl (''KNMI data reading failed: '' @ e)
            | Inr df \<Rightarrow> Inr df))"

definition process_weather_data ::
  "('raw, 'ts, 'r) processor_env \<Rightarrow> ('ts, 'r) frame \<Rightarrow> weather_station \<Rightarrow> int \<Rightarrow>
   string + ('ts, 'r) frame" where
  "process_weather_data p knmi_data station yr =
     (case compute_weather p knmi_data station yr of
        Inl e \<Rightarrow> Inl (''Weather data processing failed: '' @ e)
      | Inr weather_vars \<Rightarrow> Inr weather_vars)"

definition validate_processed_data ::
  "('raw, 'ts, 'r) processor_env \<Rightarrow> ('ts, 'r) frame \<Rightarrow> bool" where
  "validate_processed_data p d = (if d = [] then False else required_columns_ok p d)"

subsection \<open>Names for the streaming claims\<close>

text \<open>
  Names for what the loops work on. \<open>drop_feb29\<close> is the removal of 29 February
  in the consumer loop; \<open>prepared_chunks\<close> are the chunks whose preparation in
  the reader did not raise; \<open>usable_chunks\<close> are those of them that still have
  rows after the removal, the chunks the consumer transforms. \<open>transform_all\<close>
  transforms them in order and stops at the first error.
\<close>

definition drop_feb29 ::
  "('raw, 'ts, 'r) processor_env \<Rightarrow> int \<Rightarrow> ('ts, 'r) frame \<Rightarrow> ('ts, 'r) frame" where
  "drop_feb29 p yr chunk =
     (if yr mod 4 = 0 then
        (case feb29_range p yr of
           None \<Rightarrow> chunk
         | Some labels \<Rightarrow> filter (\<lambda>row. fst row \<notin> set labels) chunk)
      else chunk)"

definition prepared_chunks ::
  "('raw, 'ts, 'r) processor_env \<Rightarrow> 'raw list \<Rightarrow> ('ts, 'r) frame list" where
  "prepared_chunks p rs = map projr (filter (\<lambda>x. \<not> isl x) (map (prepare_chunk p) rs))"

definition usable_chunks ::
  "('raw, 'ts, 'r) processor_env \<Rightarrow> int \<Rightarrow> 'raw list \<Rightarrow> ('ts, 'r) frame list" where
  "usable_chunks p yr rs = filter (\<lambda>ch. ch \<noteq> []) (map (drop_feb29 p yr) (prepared_chunks p rs))"

fun transform_all ::
  "('raw, 'ts, 'r) processor_env \<Rightarrow> weather_station \<Rightarrow> ('ts, 'r) frame list \<Rightarrow>
   string + ('ts, 'r) frame list" where
  "transform_all p station [] = Inr []"
| "transform_all p station (ch # chs) =
     (case transform_chunk p station ch of
        Inl e \<Rightarrow> Inl e
      | Inr w \<Rightarrow> (case transform_all p station chs of
                    Inl e \<Rightarrow> Inl e
                  | Inr ws \<Rightarrow> Inr (w # ws)))"

fun chunk_log :: "('raw, 'ts, 'r) processor_env \<Rightarrow> int \<Rightarrow> nat \<Rightarrow> 'raw list \<Rightarrow> log_entry list" where
  "chunk_log p yr i [] = []"
| "chunk_log p yr i (raw # rest) =
     (case prepare_chunk p raw of
        Inl e \<Rightarrow> [ChunkWarning (i + 1) e]
      | Inr ch \<Rightarrow> if ch \<noteq> [] \<and> yr mod 4 = 0 \<and> feb29_range p yr = None then [Feb29Warning] else [])
     @ chunk_log p yr (i + 1) rest"

text \<open>A small processor to run the model on: a raw chunk is already a list of
  rows; preparing a chunk raises on the row \<open>(0, ''bad date'')\<close>, transforming one
  raises on the row \<open>(5, ''no position'')\<close> and is the identity otherwise; the
  label of 29 February is 60.\<close>

definition toy_station :: weather_station where
  "toy_station = \<lparr>station_id = ''240'', name = ''SCHIPHOL'', abbrev = ''SCH'',
                   latitude = 52.3, longitude = 4.8\<rparr>"

definition toy_processor :: "((nat \<times> string) list, nat, string) processor_env" where
  "toy_processor =
     \<lparr>file_exists = (\<lambda>f. True),
      read_csv_chunks = (\<lambda>f n. if f = ''parse.csv''
                                then [Inr [(3, ''c''), (1, ''a'')], Inr [(0, ''bad date'')],
                                      Inr [(60, ''x''), (2, ''b'')]]
                                else [Inr [(3, ''c''), (1, ''a'')], Inr [(5, ''no position'')],
                                      Inr [(2, ''b'')]]),
      prepare_chunk = (\<lambda>raw. if (0, ''bad date'') \<in> set raw then Inl ''bad date'' else Inr raw),
      feb29_range = (\<lambda>y. Some [60]),
      transform_chunk = (\<lambda>station ch. if (5, ''no position'') \<in> set ch
                                       then Inl ''solar position failed'' else Inr ch),
      parse_knmi_file = (\<lambda>f. Inr []),
      compute_weather = (\<lambda>d station y. Inr d),
      required_columns_ok = (\<lambda>d. True),
      config_chunk_size = 2\<rparr>"

section \<open>Batch processing (src/knmi\_epw/batch\_processor.py)\<close>

record batch_result =
  station_id :: string
  year :: int
  success :: bool
  output_path :: "string option"
  error_message :: "string option"
  processing_time :: real
  data_records :: int

record batch_stats =
  total_stations :: int
  successful :: int
  failed :: int
  total_time :: real
  average_time_per_station :: real
  total_data_records :: int
  stats_cache_hits :: int
  stats_cache_misses :: int

text \<open>The dict stored in the batch cache for a finished item, as \<open>get\<close> hands it
  back: the truth value of its \<open>'success'\<close> entry, its \<open>'output_path'\<close> and its
  \<open>'data_records'\<close> (0 when missing).\<close>

record cache_data =
  cd_success :: bool
  cd_output_path :: "string option"
  cd_data_records :: int
  cd_processing_time :: real

text \<open>What \<open>KNMIDownloader.download_station_data\<close> does: it returns the path of
  the extracted file, returns \<open>None\<close> (no URL for the station and year, or the
  download failed: \<open>_download_and_extract\<close> catches every exception), or the
  URL discovery raises.\<close>

datatype download_outcome = Downloaded string | NotAvailable | DiscoveryFailed string

text \<open>
  The collaborators of \<open>BatchProcessor\<close> and the configuration values it reads.
  \<open>clock n\<close> is what the \<open>n\<close>-th call of \<open>time.time()\<close> returns; \<open>write_epw\<close> is
  the body of the \<open>try\<close> of \<open>generate_epw_file\<close>, \<open>Some e\<close> when it raises.
\<close>

record ('raw, 'ts, 'r) world =
  clock :: "nat \<Rightarrow> real"
  str_int :: "int \<Rightarrow> string"
  config_max_workers :: int
  epw_output_dir :: string
  stations :: "string \<rightharpoonup> weather_station"
  download :: "string \<Rightarrow> int \<Rightarrow> bool \<Rightarrow> download_outcome"
  processor :: "('raw, 'ts, 'r) processor_env"
  write_epw :: "('ts, 'r) frame \<Rightarrow> weather_station \<Rightarrow> int \<Rightarrow> string \<Rightarrow> string option"
  cache_codec :: "cache_data env"

text \<open>The mutable part of a \<open>BatchProcessor\<close>: its batch cache (\<open>None\<close> when
  caching is disabled), the two counters, and how often the clock was read.\<close>

record batch_state =
  batch_cache :: "cache option"
  cache_hits :: int
  cache_misses :: int
  ticks :: nat

definition time_time :: "('raw, 'ts, 'r) world \<Rightarrow> batch_state \<Rightarrow> real \<times> batch_state" where
  "time_time w s = (clock w (ticks s), s\<lparr>ticks := Suc (ticks s)\<rparr>)"

definition download_station_data ::
  "('raw, 'ts, 'r) world \<Rightarrow> string \<Rightarrow> int \<Rightarrow> bool \<Rightarrow> string + string option" where
  "download_station_data w sid yr force_download =
     (case download w sid yr force_download of
        DiscoveryFailed e \<Rightarrow> Inl (''URL discovery failed: '' @ e)
      | NotAvailable \<Rightarrow> Inr None
      | Downloaded data_path \<Rightarrow> Inr (Some data_path))"

definition generate_epw_file ::
  "('raw, 'ts, 'r) world \<Rightarrow> ('ts, 'r) frame \<Rightarrow> weather_station \<Rightarrow> int \<Rightarrow> string \<Rightarrow> string + string" where
  "generate_epw_file w weather_data station yr output_file =
     (case write_epw w weather_data station yr output_file of
        Some e \<Rightarrow> Inl (''EPW generation failed: '' @ e)
      | None \<Rightarrow> Inr output_file)"

text \<open>The \<open>except Exception\<close> branch of \<open>process_single_station\<close>.\<close>

definition fail_with ::
  "('raw, 'ts, 'r) world \<Rightarrow> batch_state \<Rightarrow> real \<Rightarrow> batch_result \<Rightarrow> string \<Rightarrow>
   batch_result \<times> batch_state" where
  "fail_with w s start_time result e =
     (case time_time w s of
        (now, s') \<Rightarrow>
          (result\<lparr>error_message := Some e, processing_time := now - start_time\<rparr>, s'))"

text \<open>The part of \<open>process_single_station\<close> after the cache check, from
  \<open>self.cache_misses += 1\<close> on.\<close>

definition run_pipeline ::
  "('raw, 'ts :: linorder, 'r) world \<Rightarrow> batch_state \<Rightarrow> real \<Rightarrow> batch_result \<Rightarrow> weather_station \<Rightarrow>
   string \<Rightarrow> bool \<Rightarrow> bool \<Rightarrow> batch_result \<times> batch_state" where
  "run_pipeline w s0 start_time result station cache_key force_download use_streaming =
     (let s = s0\<lparr>cache_misses := cache_misses s0 + 1\<rparr>;
          sid = station_id result;
          yr = year result
      in case download_station_data w sid yr force_download of
           Inl e \<Rightarrow> fail_with w s start_time result e
         | Inr None \<Rightarrow>
             (result\<lparr>error_message :=
                 Some (''Failed to download data for station '' @ sid @ '' year '' @ str_int w yr)\<rparr>, s)
         | Inr (Some data_path) \<Rightarrow>
             (case (if use_streaming then
                      fst (process_weather_data_streaming (processor w) data_path station yr None)
                    else
                      (case read_knmi_data (processor w) data_path of
                         Inl e \<Rightarrow> Inl e
                       | Inr knmi_data \<Rightarrow> process_weather_data (processor w) knmi_data station yr)) of
                Inl e \<Rightarrow> fail_with w s start_time result e
              | Inr weather_data \<Rightarrow>
                  if \<not> validate_processed_data (processor w) weather_data then
                    (result\<lparr>error_message :=
                        Some (''Data validation failed for station '' @ sid @ '' year '' @ str_int w yr)\<rparr>, s)
                  else
                    (let result1 = result\<lparr>data_records := int (length weather_data)\<rparr>;
                         output_file = epw_output_dir w @ ''/'' @ name station @ ''/''
                                       @ ''NLD_'' @ abbrev station @ ''_EPW_YR'' @ str_int w yr @ ''.epw''
                     in case generate_epw_file w weather_data station yr output_file of
                          Inl e \<Rightarrow> fail_with w s start_time result1 e
                        | Inr epw_path \<Rightarrow>
                            (case time_time w s of
                               (now, s1) \<Rightarrow>
                                 (let result2 = result1\<lparr>success := True, output_path := Some epw_path,
                                                       processing_time := now - start_time\<rparr>
                                  in case batch_cache s1 of
                                       None \<Rightarrow> (result2, s1)
                                     | Some c \<Rightarrow>
                                         (case time_time w s1 of
                                            (t, s2) \<Rightarrow>
                                              (result2,
                                               s2\<lparr>batch_cache :=
                                                    Some (cache_set (cache_codec w) c t cache_key
                                                            \<lparr>cd_success = True, cd_output_path = Some epw_path,
                                                             cd_data_records = data_records result2,
                                                             cd_processing_time = processing_time result2\<rparr>
                                                            None ''auto'')\<rparr>)))))))"

text \<open>
  \<open>process_single_station\<close>. Each cache operation reads the clock once. The
  condition of the cache check is evaluated left to right: the cache object,
  then \<open>has\<close>, then \<open>not force_download\<close>.
\<close>

definition process_single_station ::
  "('raw, 'ts :: linorder, 'r) world \<Rightarrow> batch_state \<Rightarrow> string \<Rightarrow> int \<Rightarrow> bool \<Rightarrow> bool \<Rightarrow>
   batch_result \<times> batch_state" where
  "process_single_station w s0 sid yr force_download use_streaming =
     (case time_time w s0 of
        (start_time, s) \<Rightarrow>
          (let result = \<lparr>station_id = sid, year = yr, success = False, output_path = None,
                         error_message = None, processing_time = 0, data_records = 0\<rparr>
           in case stations w sid of
                None \<Rightarrow> (result\<lparr>error_message := Some (''Station '' @ sid @ '' not found'')\<rparr>, s)
              | Some station \<Rightarrow>
                  (let cache_key = ''batch_result_'' @ sid @ ''_'' @ str_int w yr
                   in case batch_cache s of
                        None \<Rightarrow>
                          run_pipeline w s start_time result station cache_key force_download use_streaming
                      | Some c \<Rightarrow>
                          (case time_time w s of
                             (t_has, s1) \<Rightarrow>
                               if cache_has (cache_codec w) c t_has cache_key \<and> \<not> force_download then
                                 (case time_time w s1 of
                                    (t_get, s2) \<Rightarrow>
                                      (case cache_get (cache_codec w) c t_get cache_key of
                                         (lk, c') \<Rightarrow>
                                           (let s3 = s2\<lparr>batch_cache := Some c'\<rparr>
                                            in case lk of
                                                 Hit cached_result \<Rightarrow>
                                                   if cd_success cached_result then
                                                     (case time_time w (s3\<lparr>cache_hits := cache_hits s3 + 1\<rparr>) of
                                                        (now, s4) \<Rightarrow>
                                                          (result\<lparr>success := True,
                                                                  output_path := cd_output_path cached_result,
                                                                  data_records := cd_data_records cached_result,
                                                                  processing_time := now - start_time\<rparr>, s4))
                                                   else run_pipeline w s3 start_time result station cache_key
                                                          force_download use_streaming
                                               | Miss \<Rightarrow>
                                                   run_pipeline w s3 start_time result station cache_key
                                                     force_download use_streaming)))
                               else
                                 run_pipeline w s1 start_time result station cache_key
                                   force_download use_streaming))))"

text \<open>\<open>process_multiple_stations_sequential\<close>: the items in input order. The
  progress bar and the progress callback only observe and are left out.\<close>

fun process_multiple_stations_sequential ::
  "('raw, 'ts :: linorder, 'r) world \<Rightarrow> batch_state \<Rightarrow> (string \<times> int) list \<Rightarrow> bool \<Rightarrow> bool \<Rightarrow>
   batch_result list \<times> batch_state" where
  "process_multiple_stations_sequential w s [] force_download use_streaming = ([], s)"
| "process_multiple_stations_sequential w s ((sid, yr) # rest) force_download use_streaming =
     (case process_single_station w s sid yr force_download use_streaming of
        (result, s') \<Rightarrow>
          (case process_multiple_stations_sequential w s' rest force_download use_streaming of
             (results, s'') \<Rightarrow> (result # results, s'')))"

text \<open>
  \<open>process_multiple_stations_parallel\<close>. \<open>ThreadPoolExecutor(max_workers=n)\<close>
  raises \<open>ValueError("max_workers must be greater than 0")\<close> for \<open>n \<le> 0\<close>
  (CPython, \<open>concurrent/futures/thread.py\<close>); nothing catches it here. The pool
  runs one task per item and the results are collected in completion order.
  The model runs the tasks one after the other in that order, which is given by
  \<open>schedule\<close>: each number picks, modulo their count, the next task to finish
  among those left. What threads do to the shared cache and counters when they
  interleave inside a task is not modelled.
\<close>

definition effective_workers ::
  "('raw, 'ts, 'r) world \<Rightarrow> int option \<Rightarrow> (string \<times> int) list \<Rightarrow> int" where
  "effective_workers w max_workers_arg station_years =
     (case max_workers_arg of
        None \<Rightarrow> min (config_max_workers w) (int (length station_years))
      | Some n \<Rightarrow> n)"

lemma pick_shrinks:
  "pending \<noteq> [] \<Longrightarrow>
   n mod length pending + (length pending - Suc (n mod length pending)) < length pending"
proof -
  assume "pending \<noteq> []"
  then have "n mod length pending < length pending" by simp
  then show ?thesis by arith
qed

function run_pool ::
  "('raw, 'ts :: linorder, 'r) world \<Rightarrow> batch_state \<Rightarrow> nat list \<Rightarrow> (string \<times> int) list \<Rightarrow> bool \<Rightarrow> bool \<Rightarrow>
   batch_result list \<times> batch_state" where
  "run_pool w s schedule pending force_download use_streaming =
     (if pending = [] then ([], s)
      else
        (let i = (case schedule of [] \<Rightarrow> 0 | n # _ \<Rightarrow> n mod length pending)
         in case process_single_station w s (fst (pending ! i)) (snd (pending ! i))
                   force_download use_streaming of
              (result, s') \<Rightarrow>
                (case run_pool w s' (tl schedule) (take i pending @ drop (Suc i) pending)
                        force_download use_streaming of
                   (results, s'') \<Rightarrow> (result # results, s''))))"
  by pat_completeness auto
termination
  by (relation "measure (\<lambda>(w, s, schedule, pending, f, u). length pending)")
     (auto split: list.splits simp: pick_shrinks)

declare run_pool.simps [simp del]

definition process_multiple_stations_parallel ::
  "('raw, 'ts :: linorder, 'r) world \<Rightarrow> batch_state \<Rightarrow> (string \<times> int) list \<Rightarrow> int option \<Rightarrow> bool \<Rightarrow> bool \<Rightarrow>
   nat list \<Rightarrow> string + batch_result list \<times> batch_state" where
  "process_multiple_stations_parallel w s station_years max_workers_arg force_download use_streaming schedule =
     (if effective_workers w max_workers_arg station_years \<le> 0
      then Inl ''max_workers must be greater than 0''
      else Inr (run_pool w s schedule station_years force_download use_streaming))"

text \<open>\<open>generate_batch_stats\<close>\<close>

definition generate_batch_stats :: "batch_state \<Rightarrow> batch_result list \<Rightarrow> real \<Rightarrow> batch_stats" where
  "generate_batch_stats s results total_time' =
     (let n_successful = int (length (filter success results));
          n_failed = int (length results) - n_successful;
          total_records = sum_list (map data_records (filter success results));
          avg_time = (if results \<noteq> [] then total_time' / real (length results) else 0)
      in \<lparr>total_stations = int (length results), successful = n_successful, failed = n_failed,
          total_time = total_time', average_time_per_station = avg_time,
          total_data_records = total_records,
          stats_cache_hits = cache_hits s, stats_cache_misses = cache_misses s\<rparr>)"

text \<open>\<open>process_batch\<close>: \<open>Inl\<close> is an exception that leaves it.\<close>

definition process_batch ::
  "('raw, 'ts :: linorder, 'r) world \<Rightarrow> batch_state \<Rightarrow> (string \<times> int) list \<Rightarrow> bool \<Rightarrow> int option \<Rightarrow>
   bool \<Rightarrow> bool \<Rightarrow> nat list \<Rightarrow> string + batch_result list \<times> batch_stats \<times> batch_state" where
  "process_batch w s0 station_years parallel max_workers_arg force_download use_streaming schedule =
     (case time_time w s0 of
        (start_time, s1) \<Rightarrow>
          (let s2 = s1\<lparr>cache_hits := 0, cache_misses := 0\<rparr>
           in case (if parallel then
                      process_multiple_stations_parallel w s2 station_years max_workers_arg
                        force_download use_streaming schedule
                    else
                      Inr (process_multiple_stations_sequential w s2 station_years
                             force_download use_streaming)) of
                Inl e \<Rightarrow> Inl e
              | Inr (results, s3) \<Rightarrow>
                  (case time_time w s3 of
                     (end_time, s4) \<Rightarrow>
                       Inr (results, generate_batch_stats s4 results (end_time - start_time), s4))))"

section \<open>Auxiliary definitions for the cache\<close>

text \<open>
  None of the definitions of this section is code of the repository: they are
  the vocabulary of the statements below and of their proofs.

  An index record is expired at \<open>now\<close> when its age exceeds its time to live,
  the test \<open>_is_expired\<close> applies to a key that is present.
\<close>

definition entry_expired :: "cache \<Rightarrow> real \<Rightarrow> string \<times> meta \<Rightarrow> bool" where
  "entry_expired c now e =
     (now - meta_created_time (snd e) > real_of_int (meta_ttl c (snd e)))"

text \<open>
  Deleting one entry, payload file and index record, and deleting a list of
  entries one after the other.
\<close>

definition drop_entry :: "'v env \<Rightarrow> string \<times> meta \<Rightarrow> cache \<Rightarrow> cache" where
  "drop_entry env e c =
     c\<lparr>files := (files c)(entry_path env e := None),
       metadata := AList.delete (fst e) (metadata c)\<rparr>"

definition remove_entries :: "'v env \<Rightarrow> (string \<times> meta) list \<Rightarrow> cache \<Rightarrow> cache" where
  "remove_entries env es c = fold (drop_entry env) es c"

text \<open>The entries the expiry loop drops, read off the index it starts from.\<close>

definition expired_at :: "cache \<Rightarrow> real \<Rightarrow> string \<Rightarrow> (string \<times> meta) option" where
  "expired_at c now key =
     (case map_of (metadata c) key of
        None \<Rightarrow> None
      | Some m \<Rightarrow> if entry_expired c now (key, m) then Some (key, m) else None)"

text \<open>How many entries the size sweep deletes when it starts with the running total \<open>t\<close>.\<close>

fun evict_count :: "'v env \<Rightarrow> (string \<times> meta) list \<Rightarrow> int \<Rightarrow> cache \<Rightarrow> nat" where
  "evict_count env [] t c = 0"
| "evict_count env (e # es) t c =
     (if t \<le> max_size_bytes c then 0
      else Suc (evict_count env es (t - file_size c (entry_path env e)) (drop_entry env e c)))"

text \<open>What the loops keep true of the index: distinct keys, distinct payload paths.\<close>

definition index_ok :: "'v env \<Rightarrow> cache \<Rightarrow> bool" where
  "index_ok env c =
     (distinct (map fst (metadata c)) \<and> distinct (map (entry_path env) (metadata c)))"

text \<open>
  The claim's words for the integrity check: the checksum recomputed over the
  bytes on disk equals the stored one. An entry is valid when it is unexpired
  and its checksum matches.
\<close>

definition checksum_matches :: "'v env \<Rightarrow> cache \<Rightarrow> string \<Rightarrow> bool" where
  "checksum_matches env c key =
     (case map_of (metadata c) key of
        None \<Rightarrow> False
      | Some m \<Rightarrow>
         (case files c (get_cache_path env key (meta_data_type m)) of
            None \<Rightarrow> False
          | Some b \<Rightarrow> checksum m = Some (md5_hex env b)))"

definition valid_entry :: "'v env \<Rightarrow> cache \<Rightarrow> real \<Rightarrow> string \<Rightarrow> bool" where
  "valid_entry env c now key = (\<not> is_expired c now key \<and> checksum_matches env c key)"

text \<open>
  Concrete inputs for the closed theorems: values are byte strings that every
  serialiser stores verbatim, and the digest of \<open>b\<close> is \<open>b\<close> behind a marker
  character (injective and never empty, as an MD5 hex digest is in practice).
  \<open>blob n\<close> is a payload of \<open>n\<close> bytes.
\<close>

definition toy_env :: "string env" where
  "toy_env = \<lparr>md5_hex = (\<lambda>b. CHR ''h'' # b), pickle_dump = Written, pickle_load = Some,
      to_csv = Written, read_csv = Some, json_dump = Written, json_load = Some,
      is_DataFrame = (\<lambda>v. False), is_dict_or_list = (\<lambda>v. False)\<rparr>"

definition blob :: "nat \<Rightarrow> bytes" where
  "blob n = replicate n (CHR ''x'')"

text \<open>A cache of 1 MB holding one entry of 600000 bytes, written at time 1.\<close>

definition cache_a :: cache where
  "cache_a = cache_set toy_env (init_cache 1 3600) 1 ''a'' (blob 600000) None ''auto''"

text \<open>A cache of 1 MB, default time to live 60 s, holding a pickled entry written at time 0.\<close>

definition cache_k :: cache where
  "cache_k = cache_set toy_env (init_cache 1 60) 0 ''k'' ''old'' None ''pickle''"

text \<open>The same cache after the payload file was overwritten behind its back.\<close>

definition cache_k_tampered :: cache where
  "cache_k_tampered = cache_k\<lparr>files := (files cache_k)(''hk.pkl'' \<mapsto> ''tampered'')\<rparr>"

text \<open>The same environment with a \<open>pickle.dump\<close> that raises after it has written
  1048577 bytes of the payload.\<close>

definition failing_env :: "string env" where
  "failing_env = toy_env\<lparr>pickle_dump := (\<lambda>v. Raised (Some (blob 1048577)))\<rparr>"

section \<open>Auxiliary definitions for the batch\<close>

text \<open>
  None of the definitions of this section is code of the repository.
  \<open>weather_of\<close> and \<open>output_file_of\<close> name two subterms of
  \<open>process_single_station\<close>: the processed frame of a data file, and the path
  of the EPW file of a station and year.
\<close>

definition weather_of ::
  "('raw, 'ts :: linorder, 'r) world \<Rightarrow> string \<Rightarrow> weather_station \<Rightarrow> int \<Rightarrow> bool \<Rightarrow> string + ('ts, 'r) frame" where
  "weather_of w data_path station yr use_streaming =
     (if use_streaming then fst (process_weather_data_streaming (processor w) data_path station yr None)
      else (case read_knmi_data (processor w) data_path of
              Inl e \<Rightarrow> Inl e
            | Inr knmi_data \<Rightarrow> process_weather_data (processor w) knmi_data station yr))"

definition output_file_of :: "('raw, 'ts, 'r) world \<Rightarrow> weather_station \<Rightarrow> int \<Rightarrow> string" where
  "output_file_of w station yr =
     epw_output_dir w @ ''/'' @ name station @ ''/''
       @ ''NLD_'' @ abbrev station @ ''_EPW_YR'' @ str_int w yr @ ''.epw''"

text \<open>
  The claim's words for the pipeline of an item: station lookup, download,
  transform, validation and write all succeed.
\<close>

definition pipeline_succeeds ::
  "('raw, 'ts :: linorder, 'r) world \<Rightarrow> string \<Rightarrow> int \<Rightarrow> bool \<Rightarrow> bool \<Rightarrow> bool" where
  "pipeline_succeeds w sid yr force_download use_streaming =
     (case stations w sid of
        None \<Rightarrow> False
      | Some station \<Rightarrow>
          (case download w sid yr force_download of
             Downloaded data_path \<Rightarrow>
               (case weather_of w data_path station yr use_streaming of
                  Inl e \<Rightarrow> False
                | Inr weather_data \<Rightarrow>
                    validate_processed_data (processor w) weather_data
                    \<and> write_epw w weather_data station yr (output_file_of w station yr) = None)
           | NotAvailable \<Rightarrow> False
           | DiscoveryFailed e \<Rightarrow> False))"

text \<open>
  What every result of an item satisfies: a failed result carries an error
  message that is not empty, and the result of an item whose pipeline succeeds
  is a success.
\<close>

definition result_ok ::
  "('raw, 'ts :: linorder, 'r) world \<Rightarrow> bool \<Rightarrow> bool \<Rightarrow> batch_result \<Rightarrow> bool" where
  "result_ok w force_download use_streaming r =
     ((success r \<or> (error_message r \<noteq> None \<and> error_message r \<noteq> Some []))
      \<and> (success r \<or> \<not> pipeline_succeeds w (station_id r) (year r) force_download use_streaming))"

text \<open>The work item a result belongs to, and whether \<open>process_batch\<close> returned
  (rather than raised).\<close>

definition item_of :: "batch_result \<Rightarrow> string \<times> int" where
  "item_of r = (station_id r, year r)"

definition normal_return ::
  "string + batch_result list \<times> batch_stats \<times> batch_state \<Rightarrow> bool" where
  "normal_return x = (case x of Inl e \<Rightarrow> False | Inr y \<Rightarrow> True)"

section \<open>The two sweeps\<close>

lemma remove_entries_Nil [simp]: "remove_entries env [] c = c"
  by (simp add: remove_entries_def)

lemma remove_entries_Cons [simp]:
  "remove_entries env (e # es) c = remove_entries env es (drop_entry env e c)"
  by (simp add: remove_entries_def)

lemma drop_entry_fields [simp]:
  "max_size_bytes (drop_entry env e c) = max_size_bytes c"
  "default_ttl (drop_entry env e c) = default_ttl c"
  "saved_metadata (drop_entry env e c) = saved_metadata c"
  "metadata (drop_entry env e c) = AList.delete (fst e) (metadata c)"
  "files (drop_entry env e c) = (files c)(entry_path env e := None)"
  by (simp_all add: drop_entry_def)

lemma remove_entries_fields [simp]:
  "max_size_bytes (remove_entries env es c) = max_size_bytes c"
  "default_ttl (remove_entries env es c) = default_ttl c"
  "saved_metadata (remove_entries env es c) = saved_metadata c"
  by (induction es arbitrary: c; simp)+

lemma metadata_remove_entries:
  "metadata (remove_entries env es c) = filter (\<lambda>e. fst e \<notin> fst ` set es) (metadata c)"
proof (induction es arbitrary: c)
  case Nil
  show ?case by simp
next
  case (Cons e es)
  have "filter (\<lambda>x. fst x \<notin> fst ` set es) (AList.delete (fst e) (metadata c))
      = filter (\<lambda>x. fst x \<notin> fst ` set (e # es)) (metadata c)"
    by (auto simp: AList.delete_eq intro: filter_cong)
  with Cons show ?case by simp
qed

lemma files_remove_entries:
  "files (remove_entries env es c) = files c |` (- entry_path env ` set es)"
proof (induction es arbitrary: c)
  case Nil
  show ?case by simp
next
  case (Cons e es)
  have h: "(files c)(entry_path env e := None) |` (- entry_path env ` set es)
      = files c |` (- entry_path env ` set (e # es))"
    by (rule ext) (simp add: restrict_map_def)
  show ?case
    by (simp only: remove_entries_Cons Cons.IH drop_entry_fields h)
qed

lemma remove_entries_append:
  "remove_entries env (xs @ ys) c = remove_entries env ys (remove_entries env xs c)"
  by (simp add: remove_entries_def)

lemma entry_expired_cong:
  "default_ttl c' = default_ttl c \<Longrightarrow> entry_expired c' now e = entry_expired c now e"
  by (simp add: entry_expired_def meta_ttl_def split: option.splits)

lemma is_expired_iff:
  "is_expired c now key =
     (case map_of (metadata c) key of None \<Rightarrow> True | Some m \<Rightarrow> entry_expired c now (key, m))"
  by (simp add: is_expired_def entry_expired_def split: option.splits)

lemma expired_at_drop:
  "k \<noteq> fst e \<Longrightarrow> expired_at (drop_entry env e c) now k = expired_at c now k"
  by (simp add: expired_at_def entry_expired_def meta_ttl_def split: option.splits)

lemma map_filter_cong_set:
  "(\<And>x. x \<in> set xs \<Longrightarrow> f x = g x) \<Longrightarrow> List.map_filter f xs = List.map_filter g xs"
  by (induction xs) (simp_all add: List.map_filter_simps split: option.splits)

lemma cleanup_loop_fst:
  "distinct ks \<Longrightarrow>
   fst (cleanup_loop env now ks (c, acc))
     = remove_entries env (List.map_filter (expired_at c now) ks) c"
proof (induction ks arbitrary: c acc)
  case Nil
  show ?case by (simp add: List.map_filter_simps)
next
  case (Cons k ks)
  then have dks: "distinct ks" and nk: "k \<notin> set ks" by simp_all
  show ?case
  proof (cases "map_of (metadata c) k")
    case None
    then show ?thesis
      using Cons.IH[OF dks]
      by (simp add: is_expired_iff expired_at_def List.map_filter_simps)
  next
    case (Some m)
    show ?thesis
    proof (cases "entry_expired c now (k, m)")
      case False
      with Some show ?thesis
        using Cons.IH[OF dks]
        by (simp add: is_expired_iff expired_at_def List.map_filter_simps)
    next
      case True
      have eq: "List.map_filter (expired_at (drop_entry env (k, m) c) now) ks
              = List.map_filter (expired_at c now) ks"
        using nk by (intro map_filter_cong_set expired_at_drop) auto
      have "fst (cleanup_loop env now (k # ks) (c, acc))
          = fst (cleanup_loop env now ks (drop_entry env (k, m) c, acc @ [k]))"
        using Some True by (simp add: is_expired_iff drop_entry_def entry_path_def)
      also have "\<dots> = remove_entries env (List.map_filter (expired_at c now) ks)
                        (drop_entry env (k, m) c)"
        using Cons.IH[OF dks] eq by simp
      finally have F: "fst (cleanup_loop env now (k # ks) (c, acc))
          = remove_entries env (List.map_filter (expired_at c now) ks) (drop_entry env (k, m) c)" .
      have R: "List.map_filter (expired_at c now) (k # ks)
             = (k, m) # List.map_filter (expired_at c now) ks"
        using Some True by (simp add: expired_at_def List.map_filter_simps)
      show ?thesis
        unfolding R remove_entries_Cons by (rule F)
    qed
  qed
qed

lemma map_filter_expired_at:
  assumes "distinct (map fst (metadata c))"
  shows "List.map_filter (expired_at c now) (map fst (metadata c))
       = filter (entry_expired c now) (metadata c)"
proof -
  have "\<And>xs. set xs \<subseteq> set (metadata c) \<Longrightarrow>
          List.map_filter (expired_at c now) (map fst xs) = filter (entry_expired c now) xs"
  proof -
    fix xs show "set xs \<subseteq> set (metadata c) \<Longrightarrow>
          List.map_filter (expired_at c now) (map fst xs) = filter (entry_expired c now) xs"
    proof (induction xs)
      case Nil
      show ?case by (simp add: List.map_filter_simps)
    next
      case (Cons x xs)
      then have "x \<in> set (metadata c)" by simp
      with assms have "map_of (metadata c) (fst x) = Some (snd x)"
        by (cases x) simp
      with Cons show ?case
        by (simp add: List.map_filter_simps expired_at_def)
    qed
  qed
  then show ?thesis by blast
qed

lemma cleanup_expired_fields:
  assumes "distinct (map fst (metadata c))"
  shows "metadata (cleanup_expired env now c) = filter (\<lambda>e. \<not> entry_expired c now e) (metadata c)"
    and "files (cleanup_expired env now c)
          = files c |` (- entry_path env ` {e \<in> set (metadata c). entry_expired c now e})"
    and "max_size_bytes (cleanup_expired env now c) = max_size_bytes c"
    and "default_ttl (cleanup_expired env now c) = default_ttl c"
proof -
  let ?X = "filter (entry_expired c now) (metadata c)"
  obtain c' acc where loop: "cleanup_loop env now (map fst (metadata c)) (c, []) = (c', acc)"
    by (cases "cleanup_loop env now (map fst (metadata c)) (c, [])")
  have c': "c' = remove_entries env ?X c"
    using cleanup_loop_fst[OF assms, of env now c "[]"] loop
    by (simp add: map_filter_expired_at[OF assms])
  have keys: "\<And>e. e \<in> set (metadata c) \<Longrightarrow>
               (fst e \<in> fst ` set ?X) = entry_expired c now e"
  proof -
    fix e assume e: "e \<in> set (metadata c)"
    show "(fst e \<in> fst ` set ?X) = entry_expired c now e"
    proof
      assume "fst e \<in> fst ` set ?X"
      then obtain e' where e': "e' \<in> set (metadata c)" "entry_expired c now e'" "fst e' = fst e"
        by auto
      with assms e have "e' = e"
        by (metis eq_key_imp_eq_value prod.collapse)
      with e' show "entry_expired c now e" by simp
    next
      assume "entry_expired c now e"
      with e show "fst e \<in> fst ` set ?X" by auto
    qed
  qed
  have md: "metadata c' = filter (\<lambda>e. \<not> entry_expired c now e) (metadata c)"
    unfolding c' metadata_remove_entries
    by (rule filter_cong[OF refl]) (use keys in simp)
  have fl: "files c' = files c |` (- entry_path env ` {e \<in> set (metadata c). entry_expired c now e})"
    unfolding c' files_remove_entries by simp
  show "metadata (cleanup_expired env now c) = filter (\<lambda>e. \<not> entry_expired c now e) (metadata c)"
    using md loop by (simp add: cleanup_expired_def save_metadata_def)
  show "files (cleanup_expired env now c)
          = files c |` (- entry_path env ` {e \<in> set (metadata c). entry_expired c now e})"
    using fl loop by (simp add: cleanup_expired_def save_metadata_def)
  show "max_size_bytes (cleanup_expired env now c) = max_size_bytes c"
    using loop c' by (simp add: cleanup_expired_def save_metadata_def)
  show "default_ttl (cleanup_expired env now c) = default_ttl c"
    using loop c' by (simp add: cleanup_expired_def save_metadata_def)
qed

lemma drop_entry_no_file:
  "files c (entry_path env e) = None \<Longrightarrow>
   c\<lparr>metadata := AList.delete (fst e) (metadata c)\<rparr> = drop_entry env e c"
  by (simp add: drop_entry_def fun_upd_idem)

lemma evict_loop_cache:
  "snd (snd (evict_loop env es (t, r, c)))
     = remove_entries env (take (evict_count env es t c) es) c"
proof (induction es arbitrary: t r c)
  case Nil
  show ?case by simp
next
  case (Cons e es)
  show ?case
  proof (cases "t \<le> max_size_bytes c")
    case True
    then show ?thesis by simp
  next
    case False
    show ?thesis
    proof (cases "files c (entry_path env e)")
      case None
      then have fs: "file_size c (entry_path env e) = 0"
        by (simp add: file_size_def)
      have step: "evict_loop env (e # es) (t, r, c) = evict_loop env es (t, r, drop_entry env e c)"
        using None False by (simp add: drop_entry_no_file)
      have cnt: "evict_count env (e # es) t c = Suc (evict_count env es t (drop_entry env e c))"
        using False fs by simp
      show ?thesis
        unfolding step cnt using Cons.IH[of t r "drop_entry env e c"] by simp
    next
      case (Some b)
      then have fs: "file_size c (entry_path env e) = int (length b)"
        by (simp add: file_size_def)
      have step: "evict_loop env (e # es) (t, r, c)
                = evict_loop env es (t - int (length b), Suc r, drop_entry env e c)"
        using Some False by (simp add: drop_entry_def)
      have cnt: "evict_count env (e # es) t c
               = Suc (evict_count env es (t - int (length b)) (drop_entry env e c))"
        using False fs by simp
      show ?thesis
        unfolding step cnt
        using Cons.IH[of "t - int (length b)" "Suc r" "drop_entry env e c"] by simp
    qed
  qed
qed

lemma evict_count_le: "evict_count env es t c \<le> length es"
  by (induction es arbitrary: t c) simp_all

lemma sum_list_delete:
  "distinct (map fst md) \<Longrightarrow> e \<in> set md \<Longrightarrow>
   sum_list (map f md) = (f e :: int) + sum_list (map f (AList.delete (fst e) md))"
proof (induction md)
  case Nil
  then show ?case by simp
next
  case (Cons x xs)
  show ?case
  proof (cases "x = e")
    case True
    with Cons.prems have "fst e \<notin> fst ` set xs" by simp
    then have "AList.delete (fst e) xs = xs" by simp
    with True show ?thesis by simp
  next
    case False
    with Cons.prems have e: "e \<in> set xs" by simp
    with Cons.prems have "fst x \<noteq> fst e" by force
    with Cons e show ?thesis by simp
  qed
qed

lemma set_delete: "set (AList.delete k md) = {x \<in> set md. fst x \<noteq> k}"
  by (auto simp: AList.delete_eq)

lemma total_size_drop_entry:
  assumes dk: "distinct (map fst (metadata c))"
      and dp: "distinct (map (entry_path env) (metadata c))"
      and e: "e \<in> set (metadata c)"
  shows "total_size env (drop_entry env e c) = total_size env c - file_size c (entry_path env e)"
proof -
  have inj: "inj_on (entry_path env) (set (metadata c))"
    using dp by (simp add: distinct_map)
  have A: "map (\<lambda>x. file_size (drop_entry env e c) (entry_path env x)) (AList.delete (fst e) (metadata c))
      = map (\<lambda>x. file_size c (entry_path env x)) (AList.delete (fst e) (metadata c))"
  proof (rule map_cong[OF refl])
    fix x assume "x \<in> set (AList.delete (fst e) (metadata c))"
    then have x: "x \<in> set (metadata c)" "x \<noteq> e"
      by (auto simp: set_delete)
    with inj e have "entry_path env x \<noteq> entry_path env e"
      by (auto dest: inj_onD)
    then show "file_size (drop_entry env e c) (entry_path env x) = file_size c (entry_path env x)"
      by (simp add: file_size_def)
  qed
  have "total_size env (drop_entry env e c)
           = sum_list (map (\<lambda>x. file_size (drop_entry env e c) (entry_path env x))
                        (AList.delete (fst e) (metadata c)))"
    by (simp add: total_size_def)
  also have "\<dots> = sum_list (map (\<lambda>x. file_size c (entry_path env x)) (AList.delete (fst e) (metadata c)))"
    by (simp only: A)
  also have "\<dots> = total_size env c - file_size c (entry_path env e)"
    using sum_list_delete[OF dk e, of "\<lambda>x. file_size c (entry_path env x)"]
    by (simp add: total_size_def)
  finally show ?thesis .
qed

lemma index_ok_drop_entry: "index_ok env c \<Longrightarrow> index_ok env (drop_entry env e c)"
  by (simp add: index_ok_def AList.distinct_delete AList.delete_eq distinct_map_filter)

lemma index_ok_remove_entries: "index_ok env c \<Longrightarrow> index_ok env (remove_entries env es c)"
  by (induction es arbitrary: c) (simp_all add: index_ok_drop_entry)

lemma evict_count_props:
  assumes "index_ok env c" "set es \<subseteq> set (metadata c)" "distinct (map fst es)"
  shows "(\<forall>j < evict_count env es (total_size env c) c.
            max_size_bytes c < total_size env (remove_entries env (take j es) c))
       \<and> (evict_count env es (total_size env c) c < length es \<longrightarrow>
            total_size env (remove_entries env (take (evict_count env es (total_size env c) c) es) c)
              \<le> max_size_bytes c)"
  using assms
proof (induction es arbitrary: c)
  case Nil
  show ?case by simp
next
  case (Cons e es)
  show ?case
  proof (cases "total_size env c \<le> max_size_bytes c")
    case True
    then show ?thesis by simp
  next
    case False
    let ?c = "drop_entry env e c"
    from Cons.prems have e: "e \<in> set (metadata c)" by simp
    have ts: "total_size env ?c = total_size env c - file_size c (entry_path env e)"
      using Cons.prems(1) e by (simp add: index_ok_def total_size_drop_entry)
    have ok: "index_ok env ?c" using Cons.prems(1) by (rule index_ok_drop_entry)
    have sub: "set es \<subseteq> set (metadata ?c)"
    proof
      fix x assume x: "x \<in> set es"
      with Cons.prems(2) have "x \<in> set (metadata c)" by auto
      moreover have "fst x \<noteq> fst e"
      proof
        assume "fst x = fst e"
        moreover from x have "fst x \<in> fst ` set es" by (rule imageI)
        ultimately show False using Cons.prems(3) by simp
      qed
      ultimately show "x \<in> set (metadata ?c)" by (simp add: set_delete)
    qed
    have dk: "distinct (map fst es)" using Cons.prems(3) by simp
    note IH = Cons.IH[OF ok sub dk]
    have n: "evict_count env (e # es) (total_size env c) c
           = Suc (evict_count env es (total_size env ?c) ?c)"
      using False ts by simp
    show ?thesis
      unfolding n
    proof (intro conjI allI impI)
      fix j assume j: "j < Suc (evict_count env es (total_size env ?c) ?c)"
      show "max_size_bytes c < total_size env (remove_entries env (take j (e # es)) c)"
      proof (cases j)
        case 0
        with False show ?thesis by simp
      next
        case (Suc j')
        with j IH show ?thesis by simp
      qed
    next
      assume "Suc (evict_count env es (total_size env ?c) ?c) < length (e # es)"
      with IH show "total_size env
              (remove_entries env (take (Suc (evict_count env es (total_size env ?c) ?c)) (e # es)) c)
            \<le> max_size_bytes c"
        by simp
    qed
  qed
qed

lemma total_size_cong:
  "metadata c1 = metadata c2 \<Longrightarrow> files c1 = files c2 \<Longrightarrow> total_size env c1 = total_size env c2"
  by (simp add: total_size_def file_size_def)

lemma set_sorted_entries [simp]: "set (sorted_entries c) = set (metadata c)"
  by (simp add: sorted_entries_def)

lemma distinct_keys_sorted_entries:
  "distinct (map fst (metadata c)) \<Longrightarrow> distinct (map fst (sorted_entries c))"
proof -
  assume d: "distinct (map fst (metadata c))"
  have "mset (map fst (sorted_entries c)) = mset (map fst (metadata c))"
    by (simp add: sorted_entries_def)
  then show ?thesis using d by (metis mset_eq_imp_distinct_iff)
qed

lemma enforce_size_limit_props:
  assumes ok: "index_ok env c"
  shows "\<exists>n \<le> length (sorted_entries c).
           metadata (enforce_size_limit env c)
             = metadata (remove_entries env (take n (sorted_entries c)) c)
         \<and> files (enforce_size_limit env c)
             = files (remove_entries env (take n (sorted_entries c)) c)
         \<and> (\<forall>j < n. max_size_bytes c
                      < total_size env (remove_entries env (take j (sorted_entries c)) c))
         \<and> (total_size env (enforce_size_limit env c) \<le> max_size_bytes c
              \<or> metadata (enforce_size_limit env c) = [])"
proof (cases "total_size env c \<le> max_size_bytes c")
  case True
  then have "enforce_size_limit env c = c" by (simp add: enforce_size_limit_def)
  with True show ?thesis by (intro exI[of _ 0]) simp
next
  case False
  let ?S = "sorted_entries c"
  let ?n = "evict_count env ?S (total_size env c) c"
  let ?r = "remove_entries env (take ?n ?S) c"
  obtain t r c' where loop: "evict_loop env ?S (total_size env c, 0, c) = (t, r, c')"
    by (cases "evict_loop env ?S (total_size env c, 0, c)")
  have c': "c' = ?r"
    using evict_loop_cache[of env ?S "total_size env c" 0 c] loop by simp
  have md: "metadata (enforce_size_limit env c) = metadata ?r"
    and fl: "files (enforce_size_limit env c) = files ?r"
    using False loop c' by (simp_all add: enforce_size_limit_def save_metadata_def)
  have props: "(\<forall>j < ?n. max_size_bytes c < total_size env (remove_entries env (take j ?S) c))
       \<and> (?n < length ?S \<longrightarrow> total_size env ?r \<le> max_size_bytes c)"
    using ok by (intro evict_count_props) (simp_all add: index_ok_def distinct_keys_sorted_entries)
  have bound: "total_size env ?r \<le> max_size_bytes c \<or> metadata ?r = []"
  proof (cases "?n < length ?S")
    case True
    with props show ?thesis by simp
  next
    case False
    with evict_count_le[of env ?S "total_size env c" c] have "take ?n ?S = ?S" by simp
    then have "metadata ?r = []"
      by (simp add: metadata_remove_entries)
    then show ?thesis by simp
  qed
  have "total_size env (enforce_size_limit env c) = total_size env ?r"
    using md fl by (rule total_size_cong)
  with bound md fl props evict_count_le[of env ?S "total_size env c" c] show ?thesis
    by (intro exI[of _ ?n]) simp
qed

lemma enforce_size_limit_fields [simp]:
  "max_size_bytes (enforce_size_limit env c) = max_size_bytes c"
  "default_ttl (enforce_size_limit env c) = default_ttl c"
proof -
  obtain t r c' where loop: "evict_loop env (sorted_entries c) (total_size env c, 0, c) = (t, r, c')"
    by (cases "evict_loop env (sorted_entries c) (total_size env c, 0, c)")
  have c': "c' = remove_entries env (take (evict_count env (sorted_entries c) (total_size env c) c)
                                       (sorted_entries c)) c"
    using evict_loop_cache[of env "sorted_entries c" "total_size env c" 0 c] loop by simp
  show "max_size_bytes (enforce_size_limit env c) = max_size_bytes c"
    using loop c' by (simp add: enforce_size_limit_def save_metadata_def)
  show "default_ttl (enforce_size_limit env c) = default_ttl c"
    using loop c' by (simp add: enforce_size_limit_def save_metadata_def)
qed

lemma extension_cases:
  "extension dt = ''.pkl'' \<or> extension dt = ''.csv'' \<or> extension dt = ''.json''"
  by (simp add: extension_def)

lemma append_extension_eq:
  assumes "xs @ extension d1 = ys @ extension d2"
  shows "xs = ys"
proof -
  from assms have r: "rev (extension d1) @ rev xs = rev (extension d2) @ rev ys"
    by (metis rev_append)
  show ?thesis
    using extension_cases[of d1] extension_cases[of d2] r by auto
qed

lemma path_eq_imp_md5_eq:
  "get_cache_path env k1 d1 = get_cache_path env k2 d2 \<Longrightarrow> md5_hex env k1 = md5_hex env k2"
  by (auto simp: get_cache_path_def dest: append_extension_eq)

lemma index_okI:
  assumes dk: "distinct (map fst (metadata c))"
      and inj: "inj_on (md5_hex env) (fst ` set (metadata c))"
  shows "index_ok env c"
proof -
  have "inj_on (entry_path env) (set (metadata c))"
  proof (rule inj_onI)
    fix x y assume x: "x \<in> set (metadata c)" and y: "y \<in> set (metadata c)"
      and p: "entry_path env x = entry_path env y"
    from p have "md5_hex env (fst x) = md5_hex env (fst y)"
      by (auto simp: entry_path_def dest: path_eq_imp_md5_eq)
    with inj x y have "fst x = fst y"
      by (auto dest: inj_onD)
    with dk x y show "x = y"
      by (metis eq_key_imp_eq_value prod.collapse)
  qed
  moreover from dk have "distinct (metadata c)"
    by (rule distinct_map[THEN iffD1, THEN conjunct1])
  ultimately show ?thesis
    using dk by (simp add: index_ok_def distinct_map)
qed

lemma store_entry_fields [simp]:
  "metadata (store_entry env c now key t dt b)
     = AList.update key (new_meta env now t dt b) (metadata c)"
  "files (store_entry env c now key t dt b) = (files c)(get_cache_path env key dt \<mapsto> b)"
  "max_size_bytes (store_entry env c now key t dt b) = max_size_bytes c"
  "default_ttl (store_entry env c now key t dt b) = default_ttl c"
  by (simp_all add: store_entry_def save_metadata_def)

lemma store_entry_ok:
  assumes dict: "distinct (map fst (metadata c))"
      and nocoll: "inj_on (md5_hex env) (insert key (fst ` set (metadata c)))"
  shows "distinct (map fst (metadata (store_entry env c now key t dt b)))"
    and "index_ok env (store_entry env c now key t dt b)"
proof -
  show d: "distinct (map fst (metadata (store_entry env c now key t dt b)))"
    using dict by (simp add: AList.distinct_update)
  have "fst ` set (metadata (store_entry env c now key t dt b)) = insert key (fst ` set (metadata c))"
    by (simp add: AList.dom_update)
  with nocoll d show "index_ok env (store_entry env c now key t dt b)"
    by (intro index_okI) simp_all
qed

lemma cleanup_expired_ok:
  assumes "index_ok env c"
  shows "index_ok env (cleanup_expired env now c)"
  using assms cleanup_expired_fields(1)[of c env now]
  by (simp add: index_ok_def distinct_map_filter)

lemma filter_keys_eq_filter_mem:
  assumes dk: "distinct (map fst md)" and sub: "set xs \<subseteq> set md"
  shows "filter (\<lambda>e. fst e \<notin> fst ` set xs) md = filter (\<lambda>e. e \<notin> set xs) md"
proof (rule filter_cong[OF refl])
  fix e assume e: "e \<in> set md"
  have "fst e \<in> fst ` set xs \<longleftrightarrow> e \<in> set xs"
  proof
    assume "fst e \<in> fst ` set xs"
    then obtain e' where e': "e' \<in> set xs" "fst e' = fst e" by auto
    with sub have "e' \<in> set md" by auto
    with dk e e' have "e' = e" by (metis eq_key_imp_eq_value prod.collapse)
    with e' show "e \<in> set xs" by simp
  qed auto
  then show "(fst e \<notin> fst ` set xs) = (e \<notin> set xs)" by simp
qed

section \<open>Eviction after every set\<close>

text \<open>
  C1, amended. When the payload write of \<open>set\<close> succeeds, on an index with distinct keys
  whose keys (and the new one) have distinct digests and with a budget that is
  not negative, \<open>set\<close> runs both sweeps on the state \<open>c1\<close> it has just written:
  \<^item> the expiry sweep leaves exactly the records that are not expired at \<open>now\<close>
    and deletes the payload files of the others (state \<open>c2\<close>);
  \<^item> the size sweep deletes the first \<open>n\<close> entries of \<open>c2\<close>'s index sorted by
    ascending \<open>last_access\<close>, files and records, for some \<open>n\<close>; before each of
    these deletions the total size was over the budget; every deleted entry
    was accessed no later than every entry that stays;
  \<^item> afterwards the total on-disk size of the indexed entries is within the
    budget.
\<close>

theorem set_runs_eviction_pass:
  assumes dict: "distinct (map fst (metadata c))"
      and nocoll: "inj_on (md5_hex env) (insert key (fst ` set (metadata c)))"
      and budget: "0 \<le> max_size_bytes c"
      and written: "write_payload env (detect_type env v dt_arg) v = Written b"
  shows "let t = (case ttl_arg of None \<Rightarrow> default_ttl c | Some t \<Rightarrow> t);
             c1 = store_entry env c now key t (detect_type env v dt_arg) b;
             c2 = cleanup_expired env now c1;
             c3 = cache_set env c now key v ttl_arg dt_arg;
             S = sorted_entries c2
         in metadata c2 = filter (\<lambda>e. \<not> entry_expired c now e) (metadata c1)
          \<and> files c2 = files c1 |` (- entry_path env ` {e \<in> set (metadata c1). entry_expired c now e})
          \<and> sorted (map (\<lambda>e. meta_last_access (snd e)) S)
          \<and> (\<exists>n \<le> length S.
                 metadata c3 = filter (\<lambda>e. e \<notin> set (take n S)) (metadata c2)
               \<and> files c3 = files c2 |` (- entry_path env ` set (take n S))
               \<and> (\<forall>j < n. max_size_bytes c < total_size env (remove_entries env (take j S) c2))
               \<and> (\<forall>r \<in> set (take n S). \<forall>k \<in> set (metadata c3).
                     meta_last_access (snd r) \<le> meta_last_access (snd k)))
          \<and> total_size env c3 \<le> max_size_bytes c"
proof -
  define t where "t = (case ttl_arg of None \<Rightarrow> default_ttl c | Some t \<Rightarrow> t)"
  define c1 where "c1 = store_entry env c now key t (detect_type env v dt_arg) b"
  define c2 where "c2 = cleanup_expired env now c1"
  define c3 where "c3 = cache_set env c now key v ttl_arg dt_arg"
  define S where "S = sorted_entries c2"
  have c3: "c3 = enforce_size_limit env c2"
    using written by (simp add: c3_def c2_def c1_def t_def cache_set_def)
  have d1: "distinct (map fst (metadata c1))" and ok1: "index_ok env c1"
    unfolding c1_def using dict nocoll by (rule store_entry_ok)+
  have exp_eq: "entry_expired c1 now = entry_expired c now"
    by (rule ext, rule entry_expired_cong) (simp add: c1_def)
  note F = cleanup_expired_fields[OF d1, of env now, folded c2_def, unfolded exp_eq]
  have md2: "metadata c2 = filter (\<lambda>e. \<not> entry_expired c now e) (metadata c1)"
    by (rule F(1))
  have fl2: "files c2 = files c1 |` (- entry_path env ` {e \<in> set (metadata c1). entry_expired c now e})"
    by (rule F(2))
  have max2: "max_size_bytes c2 = max_size_bytes c"
    using F(3) by (simp add: c1_def)
  have ok2: "index_ok env c2"
    unfolding c2_def using ok1 by (rule cleanup_expired_ok)
  then have d2: "distinct (map fst (metadata c2))"
    by (simp add: index_ok_def)
  have srt: "sorted (map (\<lambda>e. meta_last_access (snd e)) S)"
    by (simp add: S_def sorted_entries_def)
  from enforce_size_limit_props[OF ok2, folded c3 S_def, unfolded max2]
  obtain n where n: "n \<le> length S"
    and md3: "metadata c3 = metadata (remove_entries env (take n S) c2)"
    and fl3: "files c3 = files (remove_entries env (take n S) c2)"
    and over: "\<forall>j < n. max_size_bytes c < total_size env (remove_entries env (take j S) c2)"
    and bound': "total_size env c3 \<le> max_size_bytes c \<or> metadata c3 = []"
    by blast
  have bound: "total_size env c3 \<le> max_size_bytes c"
    using bound' budget by (auto simp: total_size_def)
  have sub: "set (take n S) \<subseteq> set (metadata c2)"
    using set_take_subset[of n S] by (simp add: S_def)
  have md3': "metadata c3 = filter (\<lambda>e. e \<notin> set (take n S)) (metadata c2)"
    unfolding md3 metadata_remove_entries
    using d2 sub by (rule filter_keys_eq_filter_mem)
  have fl3': "files c3 = files c2 |` (- entry_path env ` set (take n S))"
    unfolding fl3 files_remove_entries ..
  have dS: "distinct S"
  proof -
    have "distinct (map fst S)" unfolding S_def using d2 by (rule distinct_keys_sorted_entries)
    then show ?thesis by (rule distinct_map[THEN iffD1, THEN conjunct1])
  qed
  have kept: "set (metadata c3) \<subseteq> set (drop n S)"
  proof
    fix e assume "e \<in> set (metadata c3)"
    then have "e \<in> set S" "e \<notin> set (take n S)"
      by (simp_all add: md3' S_def)
    then show "e \<in> set (drop n S)"
      by (metis Un_iff append_take_drop_id set_append)
  qed
  have lru: "\<forall>r \<in> set (take n S). \<forall>k \<in> set (metadata c3).
               meta_last_access (snd r) \<le> meta_last_access (snd k)"
  proof (intro ballI)
    fix r k assume r: "r \<in> set (take n S)" and k: "k \<in> set (metadata c3)"
    from k kept have k': "k \<in> set (drop n S)" by auto
    have "sorted (map (\<lambda>e. meta_last_access (snd e)) (take n S @ drop n S))"
      using srt by simp
    then show "meta_last_access (snd r) \<le> meta_last_access (snd k)"
      unfolding map_append sorted_append using r k' by auto
  qed
  show ?thesis
    unfolding Let_def t_def[symmetric] c1_def[symmetric] c2_def[symmetric] c3_def[symmetric]
      S_def[symmetric]
    apply (intro conjI)
        apply (rule md2)
       apply (rule fl2)
      apply (rule srt)
     apply (rule exI[of _ n])
     apply (intro conjI)
         apply (rule n)
        apply (rule md3')
       apply (rule fl3')
      apply (rule over)
     apply (rule lru)
    apply (rule bound)
    done
qed

section \<open>Evaluating the cache on concrete inputs\<close>

lemma length_blob [simp]: "length (blob n) = n"
  by (simp add: blob_def)

lemmas cache_eval =
  cache_set_def cache_get_def cache_get_default_def cache_has_def init_cache_def
  detect_type_def write_payload_def load_payload_def store_entry_def new_meta_def
  save_metadata_def cleanup_expired_def is_expired_def verify_integrity_def
  meta_created_time_def meta_ttl_def meta_data_type_def meta_last_access_def
  enforce_size_limit_def total_size_def file_size_def entry_path_def get_cache_path_def
  extension_def sorted_entries_def stored_data_type_def touch_def toy_env_def
  checksum_matches_def valid_entry_def Let_def

lemma cache_a_eq:
  "cache_a = \<lparr>max_size_bytes = 1048576, default_ttl = 3600,
      metadata = [(''a'', \<lparr>created_time = Some 1, last_access = Some 1, ttl = Some 3600,
                     data_type = Some ''pickle'', checksum = Some (CHR ''h'' # blob 600000),
                     size_m = Some 600000\<rparr>)],
      files = [''ha.pkl'' \<mapsto> blob 600000],
      saved_metadata = [(''a'', \<lparr>created_time = Some 1, last_access = Some 1, ttl = Some 3600,
                     data_type = Some ''pickle'', checksum = Some (CHR ''h'' # blob 600000),
                     size_m = Some 600000\<rparr>)]\<rparr>"
  by (simp add: cache_a_def cache_eval)

lemma cache_a_then_b:
  "cache_set toy_env cache_a 2 ''b'' (blob 600000) None ''auto''
   = \<lparr>max_size_bytes = 1048576, default_ttl = 3600,
      metadata = [(''b'', \<lparr>created_time = Some 2, last_access = Some 2, ttl = Some 3600,
                     data_type = Some ''pickle'', checksum = Some (CHR ''h'' # blob 600000),
                     size_m = Some 600000\<rparr>)],
      files = [''hb.pkl'' \<mapsto> blob 600000],
      saved_metadata = [(''b'', \<lparr>created_time = Some 2, last_access = Some 2, ttl = Some 3600,
                     data_type = Some ''pickle'', checksum = Some (CHR ''h'' # blob 600000),
                     size_m = Some 600000\<rparr>)]\<rparr>"
  by (simp add: cache_a_eq cache_eval fun_upd_twist)


lemma cache_k_eq:
  "cache_k = \<lparr>max_size_bytes = 1048576, default_ttl = 60,
      metadata = [(''k'', \<lparr>created_time = Some 0, last_access = Some 0, ttl = Some 60,
                     data_type = Some ''pickle'', checksum = Some ''hold'',
                     size_m = Some 3\<rparr>)],
      files = [''hk.pkl'' \<mapsto> ''old''],
      saved_metadata = [(''k'', \<lparr>created_time = Some 0, last_access = Some 0, ttl = Some 60,
                     data_type = Some ''pickle'', checksum = Some ''hold'',
                     size_m = Some 3\<rparr>)]\<rparr>"
  by (simp add: cache_k_def cache_eval)

theorem set_runs_eviction_pass_witness:
  "distinct (map fst (metadata cache_a))
   \<and> inj_on (md5_hex toy_env) (insert ''b'' (fst ` set (metadata cache_a)))
   \<and> 0 \<le> max_size_bytes cache_a
   \<and> write_payload toy_env (detect_type toy_env (blob 600000) ''auto'') (blob 600000)
       = Written (blob 600000)
   \<and> map fst (metadata (cache_set toy_env cache_a 2 ''b'' (blob 600000) None ''auto'')) = [''b'']
   \<and> total_size toy_env (cache_set toy_env cache_a 2 ''b'' (blob 600000) None ''auto'')
       \<le> max_size_bytes cache_a"
proof -
  have h1: "distinct (map fst (metadata cache_a))" by (simp add: cache_a_eq)
  have h2: "inj_on (md5_hex toy_env) (insert ''b'' (fst ` set (metadata cache_a)))"
    by (simp add: cache_a_eq toy_env_def)
  have h3: "0 \<le> max_size_bytes cache_a" by (simp add: cache_a_eq)
  have h4: "write_payload toy_env (detect_type toy_env (blob 600000) ''auto'') (blob 600000)
       = Written (blob 600000)"
    by (simp add: write_payload_def detect_type_def toy_env_def)
  from set_runs_eviction_pass[OF h1 h2 h3 h4, of None 2]
  have "total_size toy_env (cache_set toy_env cache_a 2 ''b'' (blob 600000) None ''auto'')
       \<le> max_size_bytes cache_a"
    by (simp add: Let_def)
  moreover have "map fst (metadata (cache_set toy_env cache_a 2 ''b'' (blob 600000) None ''auto'')) = [''b'']"
    by (simp add: cache_a_then_b)
  ultimately show ?thesis using h1 h2 h3 h4 by blast
qed

text \<open>
  C1, as the claim states it, fails: both sweeps stand inside the \<open>try\<close> of
  \<open>set\<close>, after the payload write. When the writer raises, here after it has
  overwritten the payload file of an entry that is expired by then, \<open>set\<close>
  returns without sweeping: the expired entry stays indexed and the total size
  of the indexed entries stays over the budget.
\<close>

theorem failed_write_skips_sweeps_counterexample:
  "is_expired (cache_set failing_env cache_k 100 ''k'' ''v'' None ''auto'') 100 ''k''
   \<and> ''k'' \<in> fst ` set (metadata (cache_set failing_env cache_k 100 ''k'' ''v'' None ''auto''))
   \<and> max_size_bytes (cache_set failing_env cache_k 100 ''k'' ''v'' None ''auto'')
       < total_size failing_env (cache_set failing_env cache_k 100 ''k'' ''v'' None ''auto'')"
  by (simp add: cache_k_eq cache_eval failing_env_def)

lemma map_of_filter_distinct:
  assumes "distinct (map fst md)" "(k, m) \<in> set md" "P (k, m)"
  shows "map_of (filter P md) k = Some m"
proof -
  have "distinct (map fst (filter P md))"
    using assms(1) by (simp add: distinct_map_filter)
  moreover have "(k, m) \<in> set (filter P md)" using assms by simp
  ultimately show ?thesis by (rule map_of_is_SomeI)
qed

text \<open>What is left of a written entry when its key is still indexed after the sweeps.\<close>

lemma cache_set_entry_kept:
  assumes dict: "distinct (map fst (metadata c))"
      and nocoll: "inj_on (md5_hex env) (insert key (fst ` set (metadata c)))"
      and written: "write_payload env (detect_type env v dt_arg) v = Written b"
      and kept: "key \<in> fst ` set (metadata (cache_set env c now key v ttl_arg dt_arg))"
  shows "map_of (metadata (cache_set env c now key v ttl_arg dt_arg)) key
           = Some (new_meta env now (case ttl_arg of None \<Rightarrow> default_ttl c | Some t \<Rightarrow> t)
                     (detect_type env v dt_arg) b)"
    and "files (cache_set env c now key v ttl_arg dt_arg)
           (get_cache_path env key (detect_type env v dt_arg)) = Some b"
    and "distinct (map fst (metadata (cache_set env c now key v ttl_arg dt_arg)))"
    and "default_ttl (cache_set env c now key v ttl_arg dt_arg) = default_ttl c"
proof -
  define t where "t = (case ttl_arg of None \<Rightarrow> default_ttl c | Some t \<Rightarrow> t)"
  define dt where "dt = detect_type env v dt_arg"
  define m where "m = new_meta env now t dt b"
  define c1 where "c1 = store_entry env c now key t dt b"
  define c2 where "c2 = cleanup_expired env now c1"
  define c3 where "c3 = cache_set env c now key v ttl_arg dt_arg"
  define S where "S = sorted_entries c2"
  have c3: "c3 = enforce_size_limit env c2"
    using written by (simp add: c3_def c2_def c1_def t_def dt_def cache_set_def)
  have d1: "distinct (map fst (metadata c1))" and ok1: "index_ok env c1"
    unfolding c1_def using dict nocoll by (rule store_entry_ok)+
  note F = cleanup_expired_fields[OF d1, of env now, folded c2_def]
  have ok2: "index_ok env c2"
    unfolding c2_def using ok1 by (rule cleanup_expired_ok)
  then have d2: "distinct (map fst (metadata c2))"
    by (simp add: index_ok_def)
  from enforce_size_limit_props[OF ok2, folded c3 S_def]
  obtain n where md3: "metadata c3 = metadata (remove_entries env (take n S) c2)"
    and fl3: "files c3 = files (remove_entries env (take n S) c2)"
    by blast
  have sub: "set (take n S) \<subseteq> set (metadata c2)"
    using set_take_subset[of n S] by (simp add: S_def)
  have md3': "metadata c3 = filter (\<lambda>e. e \<notin> set (take n S)) (metadata c2)"
    unfolding md3 metadata_remove_entries
    using d2 sub by (rule filter_keys_eq_filter_mem)
  have fl3': "files c3 = files c2 |` (- entry_path env ` set (take n S))"
    unfolding fl3 files_remove_entries ..
  have in1: "(key, m) \<in> set (metadata c1)"
    by (rule map_of_SomeD) (simp add: c1_def m_def AList.update_conv')
  from kept obtain e where e: "e \<in> set (metadata c3)" "fst e = key"
    by (auto simp: c3_def)
  then have e2: "e \<in> set (metadata c2)" "e \<notin> set (take n S)"
    by (simp_all add: md3')
  then have e1: "e \<in> set (metadata c1)" "\<not> entry_expired c1 now e"
    by (simp_all add: F(1))
  from d1 e1(1) in1 e(2) have ee: "e = (key, m)"
    by (metis eq_key_imp_eq_value prod.collapse)
  have in3: "(key, m) \<in> set (metadata c3)" using e(1) ee by simp
  have d3: "distinct (map fst (metadata c3))"
    using d2 by (simp add: md3' distinct_map_filter)
  have inj1: "inj_on (entry_path env) (set (metadata c1))"
    using ok1 by (simp add: index_ok_def distinct_map)
  have pm: "entry_path env (key, m) = get_cache_path env key dt"
    by (simp add: entry_path_def m_def new_meta_def meta_data_type_def)
  have notA: "get_cache_path env key dt \<notin> entry_path env ` {e \<in> set (metadata c1). entry_expired c1 now e}"
  proof
    assume "get_cache_path env key dt \<in> entry_path env ` {e \<in> set (metadata c1). entry_expired c1 now e}"
    then obtain x where x: "x \<in> set (metadata c1)" "entry_expired c1 now x"
        "entry_path env x = entry_path env (key, m)"
      unfolding pm[symmetric] by auto
    with inj1 in1 have "x = (key, m)" by (auto dest: inj_onD)
    with x(2) e1(2) ee show False by simp
  qed
  have notB: "get_cache_path env key dt \<notin> entry_path env ` set (take n S)"
  proof
    assume "get_cache_path env key dt \<in> entry_path env ` set (take n S)"
    then obtain x where x: "x \<in> set (take n S)" "entry_path env x = entry_path env (key, m)"
      unfolding pm[symmetric] by auto
    from x(1) sub have "x \<in> set (metadata c1)" by (auto simp: F(1))
    with inj1 in1 x(2) have "x = (key, m)" by (auto dest: inj_onD)
    with x(1) e2(2) ee show False by simp
  qed
  have f1: "files c1 (get_cache_path env key dt) = Some b"
    by (simp add: c1_def)
  show "map_of (metadata (cache_set env c now key v ttl_arg dt_arg)) key
           = Some (new_meta env now (case ttl_arg of None \<Rightarrow> default_ttl c | Some t \<Rightarrow> t)
                     (detect_type env v dt_arg) b)"
    using map_of_is_SomeI[OF d3 in3] by (simp add: c3_def m_def t_def dt_def)
  show "files (cache_set env c now key v ttl_arg dt_arg)
           (get_cache_path env key (detect_type env v dt_arg)) = Some b"
    using notA notB f1 by (simp add: c3_def[symmetric] dt_def[symmetric] fl3' F(2) restrict_map_def)
  show "distinct (map fst (metadata (cache_set env c now key v ttl_arg dt_arg)))"
    using d3 by (simp add: c3_def)
  show "default_ttl (cache_set env c now key v ttl_arg dt_arg) = default_ttl c"
    using F(4) by (simp add: c3_def[symmetric] c3 c1_def)
qed

lemma filter_eq_singleton:
  "distinct xs \<Longrightarrow> x \<in> set xs \<Longrightarrow> filter (\<lambda>e. e = x) xs = [x]"
proof (induction xs)
  case Nil
  then show ?case by simp
next
  case (Cons a xs)
  show ?case
  proof (cases "a = x")
    case True
    with Cons.prems have "x \<notin> set xs" by simp
    then have "filter (\<lambda>e. e = x) xs = []" by (auto simp: filter_empty_conv)
    with True show ?thesis by simp
  next
    case False
    with Cons show ?thesis by simp
  qed
qed

lemma in_update_other:
  assumes "e \<in> set (AList.update k v al)" "fst e \<noteq> k"
  shows "e \<in> set al"
  using assms by (induction al) (auto split: if_splits)

text \<open>An entry that fits the budget and is the most recently accessed survives the
  sweeps of the \<open>set\<close> that wrote it.\<close>

lemma cache_set_keeps_entry:
  assumes dict: "distinct (map fst (metadata c))"
      and nocoll: "inj_on (md5_hex env) (insert key (fst ` set (metadata c)))"
      and written: "write_payload env (detect_type env v dt_arg) v = Written b"
      and fits: "int (length b) \<le> max_size_bytes c"
      and recent: "\<forall>e \<in> set (metadata c). fst e \<noteq> key \<longrightarrow> meta_last_access (snd e) < now"
      and ttl: "0 \<le> (case ttl_arg of None \<Rightarrow> default_ttl c | Some t \<Rightarrow> t)"
  shows "key \<in> fst ` set (metadata (cache_set env c now key v ttl_arg dt_arg))"
proof -
  define t where "t = (case ttl_arg of None \<Rightarrow> default_ttl c | Some t \<Rightarrow> t)"
  define dt where "dt = detect_type env v dt_arg"
  define m where "m = new_meta env now t dt b"
  define c1 where "c1 = store_entry env c now key t dt b"
  define c2 where "c2 = cleanup_expired env now c1"
  define c3 where "c3 = cache_set env c now key v ttl_arg dt_arg"
  define S where "S = sorted_entries c2"
  let ?la = "\<lambda>e. meta_last_access (snd e)"
  have c3: "c3 = enforce_size_limit env c2"
    using written by (simp add: c3_def c2_def c1_def t_def dt_def cache_set_def)
  have d1: "distinct (map fst (metadata c1))" and ok1: "index_ok env c1"
    unfolding c1_def using dict nocoll by (rule store_entry_ok)+
  note F = cleanup_expired_fields[OF d1, of env now, folded c2_def]
  have ok2: "index_ok env c2"
    unfolding c2_def using ok1 by (rule cleanup_expired_ok)
  then have d2: "distinct (map fst (metadata c2))"
    by (simp add: index_ok_def)
  have max2: "max_size_bytes c2 = max_size_bytes c"
    using F(3) by (simp add: c1_def)
  from enforce_size_limit_props[OF ok2, folded c3 S_def, unfolded max2]
  obtain n where n: "n \<le> length S"
    and md3: "metadata c3 = metadata (remove_entries env (take n S) c2)"
    and over: "\<forall>j < n. max_size_bytes c < total_size env (remove_entries env (take j S) c2)"
    by blast
  have setS: "set S = set (metadata c2)" by (simp add: S_def)
  have dS: "distinct S"
  proof -
    have "distinct (map fst S)" unfolding S_def using d2 by (rule distinct_keys_sorted_entries)
    then show ?thesis by (rule distinct_map[THEN iffD1, THEN conjunct1])
  qed
  have srt: "sorted (map ?la S)"
    by (simp add: S_def sorted_entries_def)
  have in1: "(key, m) \<in> set (metadata c1)"
    by (rule map_of_SomeD) (simp add: c1_def m_def AList.update_conv')
  have lam: "?la (key, m) = now"
    by (simp add: m_def new_meta_def meta_last_access_def)
  have nexp: "\<not> entry_expired c1 now (key, m)"
    using ttl by (simp add: entry_expired_def m_def new_meta_def meta_created_time_def
                            meta_ttl_def t_def[symmetric])
  have in2: "(key, m) \<in> set (metadata c2)"
    using in1 nexp by (simp add: F(1))
  have older: "?la e < now" if e: "e \<in> set (metadata c2)" "e \<noteq> (key, m)" for e
  proof -
    from e(1) have e1: "e \<in> set (metadata c1)" by (simp add: F(1))
    have "fst e \<noteq> key"
    proof
      assume "fst e = key"
      with d1 e1 in1 have "e = (key, m)" by (metis eq_key_imp_eq_value prod.collapse)
      with e(2) show False by simp
    qed
    moreover from e1 this have "e \<in> set (metadata c)"
      by (auto simp: c1_def dest: in_update_other)
    ultimately show ?thesis using recent by blast
  qed
  have inj1: "inj_on (entry_path env) (set (metadata c1))"
    using ok1 by (simp add: index_ok_def distinct_map)
  have pm: "entry_path env (key, m) = get_cache_path env key dt"
    by (simp add: entry_path_def m_def new_meta_def meta_data_type_def)
  have f2: "files c2 (entry_path env (key, m)) = Some b"
  proof -
    have "entry_path env (key, m) \<notin> entry_path env ` {e \<in> set (metadata c1). entry_expired c1 now e}"
    proof
      assume "entry_path env (key, m) \<in> entry_path env ` {e \<in> set (metadata c1). entry_expired c1 now e}"
      then obtain x where x: "x \<in> set (metadata c1)" "entry_expired c1 now x"
          "entry_path env x = entry_path env (key, m)"
        by auto
      with inj1 in1 have "x = (key, m)" by (auto dest: inj_onD)
      with x(2) nexp show False by simp
    qed
    moreover have "files c1 (entry_path env (key, m)) = Some b"
      by (simp add: pm c1_def)
    ultimately show ?thesis by (simp add: F(2) restrict_map_def)
  qed
  have notin: "(key, m) \<notin> set (take n S)"
  proof
    assume "(key, m) \<in> set (take n S)"
    then obtain i where i: "i < length (take n S)" "take n S ! i = (key, m)"
      by (auto simp: in_set_conv_nth)
    then have iS: "i < length S" "i < n" "S ! i = (key, m)" by simp_all
    have last: "Suc i = length S"
    proof (rule ccontr)
      assume "Suc i \<noteq> length S"
      with iS(1) have j: "Suc i < length S" by simp
      let ?e = "S ! Suc i"
      have "?e \<in> set (metadata c2)" using j setS nth_mem by blast
      moreover have "?e \<noteq> (key, m)"
      proof
        assume "?e = (key, m)"
        then have "S ! Suc i = S ! i" using iS(3) by simp
        with dS j iS(1) have "Suc i = i" by (simp add: nth_eq_iff_index_eq)
        then show False by simp
      qed
      ultimately have "?la ?e < now" by (rule older)
      moreover have "?la (S ! i) \<le> ?la ?e"
        using srt j sorted_nth_mono[of "map ?la S" i "Suc i"] by simp
      ultimately show False using iS(3) lam by simp
    qed
    let ?R = "remove_entries env (take i S) c2"
    have "take (Suc i) S = take i S @ [S ! i]"
      using iS(1) by (rule take_Suc_conv_app_nth)
    with last iS(3) have Sdec: "take i S @ [(key, m)] = S" by simp
    have "distinct (take i S @ [(key, m)])"
      using dS by (simp only: Sdec)
    then have nt: "(key, m) \<notin> set (take i S)" by simp
    have "set (take i S @ [(key, m)]) = set S" by (simp only: Sdec)
    then have U: "set S = insert (key, m) (set (take i S))" by simp
    have sub: "set (take i S) \<subseteq> set (metadata c2)"
      using set_take_subset[of i S] setS by simp
    have "metadata ?R = filter (\<lambda>e. e \<notin> set (take i S)) (metadata c2)"
      unfolding metadata_remove_entries using d2 sub by (rule filter_keys_eq_filter_mem)
    also have "\<dots> = filter (\<lambda>e. e = (key, m)) (metadata c2)"
    proof (rule filter_cong[OF refl])
      fix e assume "e \<in> set (metadata c2)"
      then have "e \<in> set (take i S) \<or> e = (key, m)"
        using setS U by auto
      with nt show "(e \<notin> set (take i S)) = (e = (key, m))" by auto
    qed
    also have "\<dots> = [(key, m)]"
    proof (rule filter_eq_singleton)
      show "distinct (metadata c2)"
        using d2 by (rule distinct_map[THEN iffD1, THEN conjunct1])
      show "(key, m) \<in> set (metadata c2)" by (rule in2)
    qed
    finally have mdR: "metadata ?R = [(key, m)]" .
    have pn: "entry_path env (key, m) \<notin> entry_path env ` set (take i S)"
    proof
      assume "entry_path env (key, m) \<in> entry_path env ` set (take i S)"
      then obtain x where x: "x \<in> set (take i S)" "entry_path env x = entry_path env (key, m)"
        by auto
      from x(1) sub have "x \<in> set (metadata c1)" by (auto simp: F(1))
      with inj1 in1 x(2) have "x = (key, m)" by (auto dest: inj_onD)
      with x(1) nt show False by simp
    qed
    have "files ?R (entry_path env (key, m)) = Some b"
      using pn f2 by (simp add: files_remove_entries restrict_map_def)
    with mdR have "total_size env ?R = int (length b)"
      by (simp add: total_size_def file_size_def)
    moreover from over iS(2) have "max_size_bytes c < total_size env ?R" by blast
    ultimately show False using fits by simp
  qed
  have sub: "set (take n S) \<subseteq> set (metadata c2)"
    using set_take_subset[of n S] setS by simp
  have "metadata c3 = filter (\<lambda>e. e \<notin> set (take n S)) (metadata c2)"
    unfolding md3 metadata_remove_entries using d2 sub by (rule filter_keys_eq_filter_mem)
  with in2 notin have "(key, m) \<in> set (metadata c3)" by simp
  then have "key \<in> fst ` set (metadata c3)" by force
  then show ?thesis by (simp add: c3_def)
qed

section \<open>Keys that were never set\<close>

text \<open>
  C9. A key that is absent from the index (\<open>set\<close> was never called on it):
  \<open>has\<close> answers false and \<open>get\<close> returns the caller's default, leaving the
  cache as it was; no branch of either raises.
\<close>

theorem never_set_key_misses:
  assumes "key \<notin> fst ` set (metadata c)"
  shows "\<not> cache_has env c now key
       \<and> cache_get env c now key = (Miss, c)
       \<and> cache_get_default env c now key dflt = (dflt, c)"
proof -
  from assms have "map_of (metadata c) key = None"
    by (simp add: map_of_eq_None_iff)
  then have "is_expired c now key"
    by (simp add: is_expired_def)
  then show ?thesis
    by (simp add: cache_has_def cache_get_def cache_get_default_def)
qed

theorem never_set_key_misses_witness:
  "''other'' \<notin> fst ` set (metadata cache_k)
   \<and> \<not> cache_has toy_env cache_k 5 ''other''
   \<and> cache_get toy_env cache_k 5 ''other'' = (Miss, cache_k)
   \<and> cache_get_default toy_env cache_k 5 ''other'' ''dflt'' = (''dflt'', cache_k)"
proof -
  have h: "''other'' \<notin> fst ` set (metadata cache_k)" by (simp add: cache_k_eq)
  from never_set_key_misses[OF h, where env = toy_env and now = 5 and dflt = "''dflt''"] h
  show ?thesis by simp
qed

section \<open>Lookups\<close>

lemma cache_get_hit:
  assumes "map_of (metadata c) key = Some m"
      and "\<not> is_expired c now key"
      and "files c (get_cache_path env key (meta_data_type m)) = Some b"
      and "checksum m = Some (md5_hex env b)"
      and "md5_hex env b \<noteq> []"
  shows "fst (cache_get env c now key) = load_payload env (meta_data_type m) b"
  using assms by (simp add: cache_get_def stored_data_type_def verify_integrity_def)

lemma cache_get_hitD:
  assumes "fst (cache_get env c now key) = Hit v"
  shows "\<exists>m b. map_of (metadata c) key = Some m \<and> \<not> is_expired c now key
          \<and> files c (get_cache_path env key (meta_data_type m)) = Some b
          \<and> checksum m = Some (md5_hex env b)
          \<and> load_payload env (meta_data_type m) b = Hit v"
  using assms
  by (auto simp: cache_get_def stored_data_type_def verify_integrity_def Let_def
           split: if_splits option.splits)

text \<open>
  C3. If the entry is expired (or absent), or the checksum recomputed over the
  bytes on disk does not match the stored one, \<open>get\<close> returns a miss, that is
  the caller's default, and hands back the cache unchanged: no payload file and
  no index record is deleted. Conversely, \<open>get\<close> returns a cached value only for
  a key that is indexed, unexpired and whose checksum matches. Every branch of
  the model returns, as every branch of the source does.
\<close>

theorem get_misses_without_deleting:
  "(is_expired c now key \<or> \<not> checksum_matches env c key \<longrightarrow>
      cache_get env c now key = (Miss, c) \<and> cache_get_default env c now key dflt = (dflt, c))
   \<and> (\<forall>v. fst (cache_get env c now key) = Hit v \<longrightarrow>
         key \<in> fst ` set (metadata c) \<and> \<not> is_expired c now key \<and> checksum_matches env c key)"
proof (intro conjI impI allI)
  assume a: "is_expired c now key \<or> \<not> checksum_matches env c key"
  then show g: "cache_get env c now key = (Miss, c)"
    by (auto simp: cache_get_def checksum_matches_def stored_data_type_def verify_integrity_def
                   Let_def split: option.splits)
  then show "cache_get_default env c now key dflt = (dflt, c)"
    by (simp add: cache_get_default_def)
next
  fix v assume "fst (cache_get env c now key) = Hit v"
  from cache_get_hitD[OF this] obtain m b where
    m: "map_of (metadata c) key = Some m" and ne: "\<not> is_expired c now key"
    and f: "files c (get_cache_path env key (meta_data_type m)) = Some b"
    and h: "checksum m = Some (md5_hex env b)"
    by blast
  from m have "(key, m) \<in> set (metadata c)" by (rule map_of_SomeD)
  then show "key \<in> fst ` set (metadata c)" by force
  show "\<not> is_expired c now key" by (rule ne)
  show "checksum_matches env c key" using m f h by (simp add: checksum_matches_def)
qed

theorem get_misses_without_deleting_witness:
  "is_expired cache_k 100 ''k''
   \<and> cache_get toy_env cache_k 100 ''k'' = (Miss, cache_k)
   \<and> \<not> checksum_matches toy_env cache_k_tampered ''k''
   \<and> cache_get toy_env cache_k_tampered 5 ''k'' = (Miss, cache_k_tampered)
   \<and> fst (cache_get toy_env cache_k 5 ''k'') = Hit ''old''
   \<and> checksum_matches toy_env cache_k ''k''"
proof -
  have e: "is_expired cache_k 100 ''k''"
    by (simp add: cache_k_eq is_expired_def meta_created_time_def meta_ttl_def)
  have t: "\<not> checksum_matches toy_env cache_k_tampered ''k''"
    by (simp add: cache_k_tampered_def cache_k_eq cache_eval)
  have g: "fst (cache_get toy_env cache_k 5 ''k'') = Hit ''old''"
    by (simp add: cache_k_eq cache_eval)
  from get_misses_without_deleting[of cache_k 100 "''k''" toy_env] e
  have 1: "cache_get toy_env cache_k 100 ''k'' = (Miss, cache_k)" by blast
  from get_misses_without_deleting[of cache_k_tampered 5 "''k''" toy_env] t
  have 2: "cache_get toy_env cache_k_tampered 5 ''k'' = (Miss, cache_k_tampered)" by blast
  from get_misses_without_deleting[of cache_k 5 "''k''" toy_env] g
  have 3: "checksum_matches toy_env cache_k ''k''" by blast
  from e t g 1 2 3 show ?thesis by blast
qed

section \<open>The existence test\<close>

text \<open>
  C4, as the claim states it, fails: \<open>has\<close> never looks at the checksum, so
  for an entry whose payload bytes were altered it answers true although no
  integrity-valid entry exists.
\<close>

theorem has_ignores_integrity_counterexample:
  "\<not> (cache_has toy_env cache_k_tampered 5 ''k'' \<longleftrightarrow> valid_entry toy_env cache_k_tampered 5 ''k'')"
  by (simp add: cache_k_tampered_def cache_k_eq cache_eval)

text \<open>
  C4, amended. For a key whose index record (if any) has a data type stored
  under the \<open>.pkl\<close> extension, \<open>has\<close> is true exactly when the key is
  indexed, unexpired and its payload file exists; the checksum plays no part.
\<close>

theorem has_on_pickle_entries:
  assumes "extension (stored_data_type c key) = ''.pkl''"
  shows "cache_has env c now key
         \<longleftrightarrow> key \<in> fst ` set (metadata c) \<and> \<not> is_expired c now key
             \<and> files c (get_cache_path env key (stored_data_type c key)) \<noteq> None"
proof -
  have "get_cache_path env key (stored_data_type c key) = get_cache_path env key ''pickle''"
    using assms by (simp add: get_cache_path_def extension_def)
  moreover have "\<not> is_expired c now key \<Longrightarrow> key \<in> fst ` set (metadata c)"
    by (cases "map_of (metadata c) key") (auto simp: is_expired_def dest: map_of_SomeD intro: rev_image_eqI)
  ultimately show ?thesis
    by (auto simp: cache_has_def)
qed

theorem has_on_pickle_entries_witness:
  "extension (stored_data_type cache_k ''k'') = ''.pkl''
   \<and> cache_has toy_env cache_k 5 ''k''
   \<and> ''k'' \<in> fst ` set (metadata cache_k)"
proof -
  have h: "extension (stored_data_type cache_k ''k'') = ''.pkl''"
    by (simp add: cache_k_eq cache_eval)
  have "cache_has toy_env cache_k 5 ''k''"
    by (simp add: cache_k_eq cache_eval)
  with has_on_pickle_entries[OF h, of toy_env 5] h show ?thesis by blast
qed

text \<open>
  The slip of \<open>has\<close>: an entry stored as JSON is valid and \<open>get\<close> returns it,
  and \<open>has\<close> answers false, since it looks for the \<open>.pkl\<close> file.
\<close>

lemma has_misses_json_entry:
  "valid_entry toy_env (cache_set toy_env (init_cache 1 60) 0 ''k'' ''v'' None ''json'') 5 ''k''
   \<and> fst (cache_get toy_env (cache_set toy_env (init_cache 1 60) 0 ''k'' ''v'' None ''json'') 5 ''k'')
       = Hit ''v''
   \<and> \<not> cache_has toy_env (cache_set toy_env (init_cache 1 60) 0 ''k'' ''v'' None ''json'') 5 ''k''"
  by (simp add: cache_eval)

section \<open>Set, then get\<close>

text \<open>
  C5, as the claim states it, fails: a payload larger than the byte budget is
  evicted by the size sweep of the very \<open>set\<close> that wrote it, so the \<open>get\<close>
  that follows misses, with a positive time to live and a serialiser that
  round-trips.
\<close>

theorem oversized_set_then_get_counterexample:
  "0 < (3600 :: int)
   \<and> pickle_load toy_env (blob 1048577) = Some (blob 1048577)
   \<and> fst (cache_get toy_env
            (cache_set toy_env (init_cache 1 3600) 0 ''k'' (blob 1048577) (Some 3600) ''auto'')
            0 ''k'') = Miss"
  by (simp add: cache_eval)

text \<open>
  C5, amended. If the payload write succeeds with bytes \<open>b\<close> that fit the byte
  budget, every other indexed entry was last accessed before \<open>now\<close>, the time
  to live is positive and the \<open>get\<close> comes no later than that after the
  \<open>set\<close>, then \<open>get\<close> is a hit and returns what the loader of the entry's data
  type decodes from \<open>b\<close>: the original value whenever the serialiser
  round-trips it. (Index keys are distinct, their digests too, and a digest is
  not empty.)
\<close>

theorem set_then_get_round_trip:
  assumes dict: "distinct (map fst (metadata c))"
      and nocoll: "inj_on (md5_hex env) (insert key (fst ` set (metadata c)))"
      and digest: "md5_hex env b \<noteq> []"
      and written: "write_payload env (detect_type env v dt_arg) v = Written b"
      and loads: "load_payload env (detect_type env v dt_arg) b = Hit v'"
      and ttl: "0 < t"
      and soon: "now' - now \<le> real_of_int t"
      and fits: "int (length b) \<le> max_size_bytes c"
      and recent: "\<forall>e \<in> set (metadata c). fst e \<noteq> key \<longrightarrow> meta_last_access (snd e) < now"
  shows "fst (cache_get env (cache_set env c now key v (Some t) dt_arg) now' key) = Hit v'"
proof -
  have kept: "key \<in> fst ` set (metadata (cache_set env c now key v (Some t) dt_arg))"
    using dict nocoll written fits recent by (rule cache_set_keeps_entry) (use ttl in simp)
  let ?c = "cache_set env c now key v (Some t) dt_arg"
  let ?dt = "detect_type env v dt_arg"
  let ?m = "new_meta env now t ?dt b"
  note K = cache_set_entry_kept[OF dict nocoll written kept]
  have m: "map_of (metadata ?c) key = Some ?m" using K(1) by simp
  have dtm: "meta_data_type ?m = ?dt"
    by (simp add: new_meta_def meta_data_type_def)
  have "\<not> is_expired ?c now' key"
    using m soon by (simp add: is_expired_def new_meta_def meta_created_time_def meta_ttl_def)
  moreover have "files ?c (get_cache_path env key (meta_data_type ?m)) = Some b"
    using K(2) dtm by simp
  moreover have "checksum ?m = Some (md5_hex env b)"
    by (simp add: new_meta_def)
  ultimately have "fst (cache_get env ?c now' key) = load_payload env (meta_data_type ?m) b"
    using m digest by (intro cache_get_hit)
  with loads dtm show ?thesis by simp
qed

theorem set_then_get_round_trip_witness:
  "fst (cache_get toy_env (cache_set toy_env cache_k 10 ''n'' ''hello'' (Some 30) ''auto'') 20 ''n'')
     = Hit ''hello''"
proof -
  have h1: "distinct (map fst (metadata cache_k))" by (simp add: cache_k_eq)
  have h2: "inj_on (md5_hex toy_env) (insert ''n'' (fst ` set (metadata cache_k)))"
    by (simp add: cache_k_eq toy_env_def)
  have h3: "md5_hex toy_env ''hello'' \<noteq> []" by (simp add: toy_env_def)
  have h4: "write_payload toy_env (detect_type toy_env ''hello'' ''auto'') ''hello'' = Written ''hello''"
    by (simp add: write_payload_def detect_type_def toy_env_def)
  have h5: "load_payload toy_env (detect_type toy_env ''hello'' ''auto'') ''hello'' = Hit ''hello''"
    by (simp add: load_payload_def detect_type_def toy_env_def)
  have h6: "0 < (30 :: int)" by simp
  have h7: "(20 :: real) - 10 \<le> real_of_int 30" by simp
  have h8: "int (length ''hello'') \<le> max_size_bytes cache_k" by (simp add: cache_k_eq)
  have h9: "\<forall>e \<in> set (metadata cache_k). fst e \<noteq> ''n'' \<longrightarrow> meta_last_access (snd e) < 10"
    by (simp add: cache_k_eq meta_last_access_def)
  show ?thesis
    by (rule set_then_get_round_trip[OF h1 h2 h3 h4 h5 h6 h7 h8 h9])
qed

text \<open>
  Why the other entries have to be older: of two entries with the same
  \<open>last_access\<close> the size sweep deletes first the one that stands first in the
  index. Here \<open>''k''\<close> is indexed first, \<open>''o''\<close> is written at time 5, and the
  \<open>set\<close> of \<open>''k''\<close> at the same time 5 evicts its own entry, although it fits.
\<close>

lemma tie_evicts_fitting_payload:
  "map_of (metadata
     (cache_set toy_env
        (cache_set toy_env cache_k 5 ''o'' (blob 600000) None ''auto'')
        5 ''k'' (blob 600000) None ''auto'')) ''k'' = None"
  by (simp add: cache_k_eq cache_eval fun_upd_twist)

section \<open>Replacing an entry\<close>




text \<open>
  When the data type changes, the payload file of the old type stays in the
  directory; no index record points at it and \<open>get\<close> never reads it.
\<close>

lemma old_payload_file_left_behind:
  "files (cache_set toy_env cache_k 1 ''k'' ''new'' (Some 30) ''json'') ''hk.pkl'' = Some ''old''"
  by (simp add: cache_k_eq cache_eval)

section \<open>Streaming: what is skipped and what aborts\<close>

lemma drop_feb29_Nil [simp]: "drop_feb29 p yr [] = []"
  by (simp add: drop_feb29_def split: option.splits)

lemma usable_chunks_Nil [simp]: "usable_chunks p yr [] = []"
  by (simp add: usable_chunks_def prepared_chunks_def)

lemma usable_chunks_Cons:
  "usable_chunks p yr (r # rs) =
     (case prepare_chunk p r of
        Inl e \<Rightarrow> usable_chunks p yr rs
      | Inr ch \<Rightarrow> if drop_feb29 p yr ch = [] then usable_chunks p yr rs
                  else drop_feb29 p yr ch # usable_chunks p yr rs)"
  by (simp add: usable_chunks_def prepared_chunks_def split: sum.splits)

lemma transform_all_append:
  "transform_all p station (xs @ ys) =
     (case transform_all p station xs of
        Inl e \<Rightarrow> Inl e
      | Inr ws \<Rightarrow> (case transform_all p station ys of Inl e \<Rightarrow> Inl e | Inr vs \<Rightarrow> Inr (ws @ vs)))"
  by (induction xs) (auto split: sum.splits)

lemma stream_loop_result:
  "fst (stream_loop p station yr (chunk_events p i (map Inr rs)) (acc, lg)) =
     (case transform_all p station (usable_chunks p yr rs) of
        Inl e \<Rightarrow> Inl e
      | Inr ws \<Rightarrow> Inr (acc @ ws))"
proof (induction rs arbitrary: i acc lg)
  case Nil
  show ?case by simp
next
  case (Cons r rs)
  show ?case
  proof (cases "prepare_chunk p r")
    case (Inl e)
    then show ?thesis by (simp add: usable_chunks_Cons Cons.IH)
  next
    case (Inr ch)
    show ?thesis
    proof (cases "ch = []")
      case True
      with Inr show ?thesis by (simp add: usable_chunks_Cons Cons.IH)
    next
      case False
      with Inr show ?thesis
        by (auto simp add: usable_chunks_Cons Cons.IH drop_feb29_def
                 split: option.splits sum.splits)
    qed
  qed
qed

lemma stream_loop_log:
  "transform_all p station (usable_chunks p yr rs) = Inr ws \<Longrightarrow>
   snd (stream_loop p station yr (chunk_events p i (map Inr rs)) (acc, lg)) = lg @ chunk_log p yr i rs"
proof (induction rs arbitrary: i acc lg ws)
  case Nil
  show ?case by simp
next
  case (Cons r rs)
  show ?case
  proof (cases "prepare_chunk p r")
    case (Inl e)
    with Cons.prems have "transform_all p station (usable_chunks p yr rs) = Inr ws"
      by (simp add: usable_chunks_Cons)
    from Cons.IH[OF this] Inl show ?thesis by simp
  next
    case (Inr ch)
    show ?thesis
    proof (cases "drop_feb29 p yr ch = []")
      case True
      with Inr Cons.prems have "transform_all p station (usable_chunks p yr rs) = Inr ws"
        by (simp add: usable_chunks_Cons)
      from Cons.IH[OF this] Inr True show ?thesis
        by (auto simp add: drop_feb29_def split: option.splits if_splits)
    next
      case False
      with Inr Cons.prems obtain w ws' where
        w: "transform_chunk p station (drop_feb29 p yr ch) = Inr w"
        and ws': "transform_all p station (usable_chunks p yr rs) = Inr ws'"
        by (auto simp add: usable_chunks_Cons split: sum.splits)
      from False have ne: "ch \<noteq> []" by auto
      from Cons.IH[OF ws'] Inr False w ne show ?thesis
        by (auto simp add: drop_feb29_def split: option.splits if_splits)
    qed
  qed
qed

lemma chunk_log_warning:
  "i < length rs \<Longrightarrow> prepare_chunk p (rs ! i) = Inl e \<Longrightarrow>
   ChunkWarning (j + i + 1) e \<in> set (chunk_log p yr j rs)"
proof (induction rs arbitrary: i j)
  case Nil
  then show ?case by simp
next
  case (Cons r rs)
  show ?case
  proof (cases i)
    case 0
    with Cons.prems show ?thesis by simp
  next
    case (Suc k)
    with Cons.prems have "ChunkWarning (Suc j + k + 1) e \<in> set (chunk_log p yr (Suc j) rs)"
      by (intro Cons.IH) simp_all
    with Suc show ?thesis by simp
  qed
qed

lemma transform_all_ok:
  "\<forall>ch \<in> set chs. \<not> isl (transform_chunk p station ch) \<Longrightarrow>
   transform_all p station chs = Inr (map (\<lambda>ch. projr (transform_chunk p station ch)) chs)"
  by (induction chs) (auto split: sum.splits)

lemma transform_all_first_error:
  "\<forall>ch \<in> set xs. \<not> isl (transform_chunk p station ch) \<Longrightarrow>
   transform_chunk p station x = Inl e \<Longrightarrow>
   transform_all p station (xs @ x # ys) = Inl e"
  by (simp add: transform_all_append transform_all_ok)

lemma transform_error_aborts_stream:
  assumes exists: "file_exists p file_path"
      and reader: "read_csv_chunks p file_path
                     (case chunk_size_arg of None \<Rightarrow> config_chunk_size p | Some n \<Rightarrow> n) = map Inr rs"
      and split: "usable_chunks p yr rs = xs @ x # ys"
      and before: "\<forall>ch \<in> set xs. \<not> isl (transform_chunk p station ch)"
      and raises: "transform_chunk p station x = Inl e"
  shows "fst (process_weather_data_streaming p file_path station yr chunk_size_arg)
           = Inl (''Streaming weather data processing failed: '' @ e)"
proof -
  define n where "n = (case chunk_size_arg of None \<Rightarrow> config_chunk_size p | Some n \<Rightarrow> n)"
  define evs where "evs = chunk_events p 0 (map Inr rs)"
  have rd: "read_knmi_data_chunked p file_path (Some n) = evs"
    using exists reader by (simp add: read_knmi_data_chunked_def n_def evs_def)
  have "transform_all p station (usable_chunks p yr rs) = Inl e"
    unfolding split using before raises by (rule transform_all_first_error)
  then have "fst (stream_loop p station yr evs ([], [])) = Inl e"
    unfolding evs_def by (simp add: stream_loop_result)
  then show ?thesis
    by (cases "stream_loop p station yr evs ([], [])")
       (simp add: process_weather_data_streaming_def rd n_def[symmetric])
qed

text \<open>
  C6, as the claim states it, fails: only the reader, \<open>read_knmi_data_chunked\<close>,
  skips a chunk with a warning, when preparing it raises. The loop of
  \<open>process_weather_data_streaming\<close> has no \<open>try\<close> around the transform of a
  chunk, so an error there leaves the loop and is raised again as a
  \<open>DataValidationError\<close>. Here the transform of the second of three chunks
  raises: the caller gets the exception, not the rows of the other two chunks,
  and no warning is logged.
\<close>

theorem transform_error_aborts_stream_counterexample:
  "read_csv_chunks toy_processor ''solar.csv'' 2
     = [Inr [(3, ''c''), (1, ''a'')], Inr [(5, ''no position'')], Inr [(2, ''b'')]]
   \<and> transform_chunk toy_processor toy_station [(3, ''c''), (1, ''a'')] = Inr [(3, ''c''), (1, ''a'')]
   \<and> transform_chunk toy_processor toy_station [(5, ''no position'')] = Inl ''solar position failed''
   \<and> transform_chunk toy_processor toy_station [(2, ''b'')] = Inr [(2, ''b'')]
   \<and> process_weather_data_streaming toy_processor ''solar.csv'' toy_station 2023 None
       = (Inl ''Streaming weather data processing failed: solar position failed'', [])"
  by (simp add: process_weather_data_streaming_def read_knmi_data_chunked_def toy_processor_def)

text \<open>
  C6, amended. Take a run over an existing file whose chunk iterator does not
  raise, and in which the transform of every usable chunk succeeds (a usable
  chunk is one whose preparation in the reader did not raise and that has rows
  left after the removal of 29 February). Then:
  \<^item> a chunk whose preparation raises is skipped, with a warning in the log
    that carries its number, counted from 1, and the error; it does not abort
    the stream;
  \<^item> if there is a usable chunk, the result is the rows of the transformed
    usable chunks, concatenated and sorted by timestamp;
  \<^item> if there is none (every chunk failed in the reader, was empty or held
    only 29 February), the outcome is the \<open>DataValidationError\<close> for ``No data
    chunks were successfully processed'', never an empty result.
  A chunk whose transform raises aborts the stream
  (\<open>transform_error_aborts_stream\<close>).
\<close>

theorem streaming_skips_unreadable_chunks:
  assumes exists: "file_exists p file_path"
      and reader: "read_csv_chunks p file_path
                     (case chunk_size_arg of None \<Rightarrow> config_chunk_size p | Some n \<Rightarrow> n) = map Inr rs"
      and transforms: "\<forall>ch \<in> set (usable_chunks p yr rs). \<not> isl (transform_chunk p station ch)"
  shows "fst (process_weather_data_streaming p file_path station yr chunk_size_arg) =
           (if usable_chunks p yr rs = [] then
              Inl (''Streaming weather data processing failed: ''
                     @ ''No data chunks were successfully processed'')
            else Inr (sort_key fst (concat (map (\<lambda>ch. projr (transform_chunk p station ch))
                                              (usable_chunks p yr rs)))))
       \<and> (\<forall>i < length rs. \<forall>e. prepare_chunk p (rs ! i) = Inl e \<longrightarrow>
             ChunkWarning (i + 1) e \<in> set (snd (process_weather_data_streaming p file_path station yr chunk_size_arg)))"
proof -
  define n where "n = (case chunk_size_arg of None \<Rightarrow> config_chunk_size p | Some n \<Rightarrow> n)"
  define evs where "evs = chunk_events p 0 (map Inr rs)"
  define U where "U = usable_chunks p yr rs"
  define ws where "ws = map (\<lambda>ch. projr (transform_chunk p station ch)) U"
  have rd: "read_knmi_data_chunked p file_path (Some n) = evs"
    using exists reader by (simp add: read_knmi_data_chunked_def n_def evs_def)
  have ta: "transform_all p station U = Inr ws"
    unfolding ws_def U_def using transforms by (rule transform_all_ok)
  have f: "fst (stream_loop p station yr evs ([], [])) = Inr ws"
    unfolding evs_def by (simp add: stream_loop_result ta[unfolded U_def])
  have s: "snd (stream_loop p station yr evs ([], [])) = chunk_log p yr 0 rs"
    unfolding evs_def using stream_loop_log[OF ta[unfolded U_def], of 0 "[]" "[]"] by simp
  have ws_Nil: "ws = [] \<longleftrightarrow> U = []" by (simp add: ws_def)
  have res: "process_weather_data_streaming p file_path station yr chunk_size_arg =
          (if U = [] then
              Inl (''Streaming weather data processing failed: ''
                     @ ''No data chunks were successfully processed'')
            else Inr (sort_key fst (concat ws)), chunk_log p yr 0 rs)"
    using f s ws_Nil
    by (cases "stream_loop p station yr evs ([], [])")
       (simp add: process_weather_data_streaming_def rd n_def[symmetric])
  have "ChunkWarning (i + 1) e \<in> set (chunk_log p yr 0 rs)"
    if "i < length rs" "prepare_chunk p (rs ! i) = Inl e" for i e
    using chunk_log_warning[OF that, of 0 yr] by simp
  with res show ?thesis
    by (simp add: U_def ws_def)
qed

theorem streaming_skips_unreadable_chunks_witness:
  "fst (process_weather_data_streaming toy_processor ''parse.csv'' toy_station 2024 None)
     = Inr [(1, ''a''), (2, ''b''), (3, ''c'')]
   \<and> ChunkWarning 2 ''bad date''
       \<in> set (snd (process_weather_data_streaming toy_processor ''parse.csv'' toy_station 2024 None))"
proof -
  let ?rs = "[[(3, ''c''), (1, ''a'')], [(0, ''bad date'')], [(60, ''x''), (2 :: nat, ''b'')]]"
  have h1: "file_exists toy_processor ''parse.csv''" by (simp add: toy_processor_def)
  have h2: "read_csv_chunks toy_processor ''parse.csv''
              (case None of None \<Rightarrow> config_chunk_size toy_processor | Some n \<Rightarrow> n) = map Inr ?rs"
    by (simp add: toy_processor_def)
  have U: "usable_chunks toy_processor 2024 ?rs = [[(3, ''c''), (1, ''a'')], [(2, ''b'')]]"
    by (simp add: usable_chunks_def prepared_chunks_def drop_feb29_def toy_processor_def)
  have h3: "\<forall>ch \<in> set (usable_chunks toy_processor 2024 ?rs).
              \<not> isl (transform_chunk toy_processor toy_station ch)"
    unfolding U by (simp add: toy_processor_def)
  have p: "prepare_chunk toy_processor (?rs ! 1) = Inl ''bad date''"
    by (simp add: toy_processor_def)
  have t: "map (\<lambda>ch. projr (transform_chunk toy_processor toy_station ch))
             [[(3, ''c''), (1, ''a'')], [(2 :: nat, ''b'')]] = [[(3, ''c''), (1, ''a'')], [(2, ''b'')]]"
    by (simp add: toy_processor_def)
  note T = streaming_skips_unreadable_chunks[OF h1 h2 h3]
  from T have a: "fst (process_weather_data_streaming toy_processor ''parse.csv'' toy_station 2024 None)
                    = Inr [(1, ''a''), (2, ''b''), (3, ''c'')]"
    unfolding U t by simp
  from T have "\<forall>i < length ?rs. \<forall>e. prepare_chunk toy_processor (?rs ! i) = Inl e \<longrightarrow>
                 ChunkWarning (i + 1) e
                   \<in> set (snd (process_weather_data_streaming toy_processor ''parse.csv'' toy_station 2024 None))"
    by (rule conjunct2)
  from this[THEN spec, of 1] p
  have b: "ChunkWarning 2 ''bad date''
             \<in> set (snd (process_weather_data_streaming toy_processor ''parse.csv'' toy_station 2024 None))"
    by (simp add: numeral_2_eq_2)
  from a b show ?thesis by (rule conjI)
qed

text \<open>The result of a run that returns is sorted by timestamp and holds exactly
  the rows of the transformed usable chunks.\<close>

lemma streaming_result_sorted:
  assumes "fst (process_weather_data_streaming p file_path station yr chunk_size_arg) = Inr d"
  shows "sorted (map fst d)"
proof -
  obtain r lg where sl: "stream_loop p station yr
      (read_knmi_data_chunked p file_path
         (Some (case chunk_size_arg of None \<Rightarrow> config_chunk_size p | Some n \<Rightarrow> n))) ([], []) = (r, lg)"
    by (cases "stream_loop p station yr
      (read_knmi_data_chunked p file_path
         (Some (case chunk_size_arg of None \<Rightarrow> config_chunk_size p | Some n \<Rightarrow> n))) ([], [])")
  from assms sl obtain chunks where "d = sort_key fst (concat chunks)"
    by (auto simp add: process_weather_data_streaming_def split: sum.splits if_splits)
  then show ?thesis by simp
qed

section \<open>One item, then a list of items\<close>

lemma fail_with_result:
  "fst (fail_with w s t0 r e) = r\<lparr>error_message := Some e, processing_time := clock w (ticks s) - t0\<rparr>"
  by (simp add: fail_with_def time_time_def)

lemma run_pipeline_key:
  "station_id (fst (run_pipeline w s t0 r station ck f u)) = station_id r
   \<and> year (fst (run_pipeline w s t0 r station ck f u)) = year r"
  by (simp add: run_pipeline_def Let_def fail_with_result time_time_def
           split: sum.splits option.splits prod.splits)

lemma wrapper_messages:
  "download_station_data w sid yr f = Inl e \<Longrightarrow> e \<noteq> []"
  "generate_epw_file w d st yr out = Inl e \<Longrightarrow> e \<noteq> []"
  "fst (process_weather_data_streaming p path st yr cs) = Inl e \<Longrightarrow> e \<noteq> []"
  "read_knmi_data p path = Inl e \<Longrightarrow> e \<noteq> []"
  "process_weather_data p df st yr = Inl e \<Longrightarrow> e \<noteq> []"
  by (auto simp: download_station_data_def generate_epw_file_def process_weather_data_streaming_def
                 read_knmi_data_def process_weather_data_def Let_def
           split: download_outcome.splits option.splits sum.splits prod.splits if_splits)

lemma weather_message: "weather_of w path st yr u = Inl e \<Longrightarrow> e \<noteq> []"
  by (auto simp: weather_of_def dest: wrapper_messages split: if_splits sum.splits)

lemma run_pipeline_result:
  "fst (run_pipeline w s0 t0 r station ck f u) =
     (let s = s0\<lparr>cache_misses := cache_misses s0 + 1\<rparr>
      in case download w (station_id r) (year r) f of
           DiscoveryFailed e \<Rightarrow> fst (fail_with w s t0 r (''URL discovery failed: '' @ e))
         | NotAvailable \<Rightarrow>
             r\<lparr>error_message :=
                 Some (''Failed to download data for station '' @ station_id r @ '' year ''
                        @ str_int w (year r))\<rparr>
         | Downloaded data_path \<Rightarrow>
             (case weather_of w data_path station (year r) u of
                Inl e \<Rightarrow> fst (fail_with w s t0 r e)
              | Inr weather_data \<Rightarrow>
                  if \<not> validate_processed_data (processor w) weather_data then
                    r\<lparr>error_message :=
                        Some (''Data validation failed for station '' @ station_id r @ '' year ''
                               @ str_int w (year r))\<rparr>
                  else
                    (case write_epw w weather_data station (year r) (output_file_of w station (year r)) of
                       Some e \<Rightarrow>
                         fst (fail_with w s t0 (r\<lparr>data_records := int (length weather_data)\<rparr>)
                                (''EPW generation failed: '' @ e))
                     | None \<Rightarrow>
                         r\<lparr>data_records := int (length weather_data), success := True,
                            output_path := Some (output_file_of w station (year r)),
                            processing_time := clock w (ticks s) - t0\<rparr>)))"
  by (simp add: run_pipeline_def weather_of_def output_file_of_def download_station_data_def
                generate_epw_file_def Let_def time_time_def
           split: download_outcome.splits sum.splits option.splits prod.splits)

lemma run_pipeline_ok:
  assumes st: "stations w (station_id r) = Some station" and ns: "\<not> success r"
  shows "result_ok w f u (fst (run_pipeline w s t0 r station ck f u))"
proof (cases "download w (station_id r) (year r) f")
  case (Downloaded data_path)
  show ?thesis
  proof (cases "weather_of w data_path station (year r) u")
    case (Inl e)
    with Downloaded st ns weather_message[OF Inl] show ?thesis
      by (simp add: run_pipeline_result result_ok_def pipeline_succeeds_def fail_with_result Let_def)
  next
    case (Inr weather_data)
    show ?thesis
    proof (cases "validate_processed_data (processor w) weather_data")
      case False
      with Inr Downloaded st ns show ?thesis
        by (simp add: run_pipeline_result result_ok_def pipeline_succeeds_def Let_def)
    next
      case True
      show ?thesis
      proof (cases "write_epw w weather_data station (year r) (output_file_of w station (year r))")
        case None
        with True Inr Downloaded st ns show ?thesis
          by (simp add: run_pipeline_result result_ok_def Let_def)
      next
        case (Some e)
        with True Inr Downloaded st ns show ?thesis
          by (simp add: run_pipeline_result result_ok_def pipeline_succeeds_def fail_with_result
                        Let_def)
      qed
    qed
  qed
next
  case NotAvailable
  with st ns show ?thesis
    by (simp add: run_pipeline_result result_ok_def pipeline_succeeds_def Let_def)
next
  case (DiscoveryFailed e)
  with st ns show ?thesis
    by (simp add: run_pipeline_result result_ok_def pipeline_succeeds_def fail_with_result Let_def)
qed

lemma process_single_station_key:
  "station_id (fst (process_single_station w s sid yr f u)) = sid
   \<and> year (fst (process_single_station w s sid yr f u)) = yr"
  by (simp add: process_single_station_def Let_def time_time_def run_pipeline_key
           split: option.splits prod.splits lookup.splits)

lemma result_ok_success: "success r \<Longrightarrow> result_ok w f u r"
  by (simp add: result_ok_def)

lemma process_single_station_ok:
  "result_ok w f u (fst (process_single_station w s sid yr f u))"
proof (cases "stations w sid")
  case None
  then show ?thesis
    by (simp add: process_single_station_def Let_def time_time_def result_ok_def
                  pipeline_succeeds_def)
next
  case (Some station)
  let ?r = "\<lparr>station_id = sid, year = yr, success = False, output_path = None,
              error_message = None, processing_time = 0, data_records = 0\<rparr>"
  have P: "result_ok w f' u (fst (run_pipeline w s' t0 ?r station ck f' u))" for s' t0 ck f'
    by (rule run_pipeline_ok) (simp_all add: Some)
  obtain t0 s1 where t1: "time_time w s = (t0, s1)" by (cases "time_time w s")
  let ?ck = "''batch_result_'' @ sid @ ''_'' @ str_int w yr"
  show ?thesis
  proof (cases "batch_cache s1")
    case None
    with Some t1 show ?thesis
      by (simp add: process_single_station_def Let_def P)
  next
    case c: (Some c)
    obtain th s2 where t2: "time_time w s1 = (th, s2)" by (cases "time_time w s1")
    consider "f" | "\<not> f" "\<not> cache_has (cache_codec w) c th ?ck"
      | "\<not> f" "cache_has (cache_codec w) c th ?ck"
      by blast
    then show ?thesis
    proof cases
      case 1
      with Some t1 c t2 show ?thesis
        by (simp add: process_single_station_def Let_def P)
    next
      case 2
      with Some t1 c t2 show ?thesis
        by (simp add: process_single_station_def Let_def P)
    next
      case True: 3
      obtain tg s3 where t3: "time_time w s2 = (tg, s3)" by (cases "time_time w s2")
      obtain lk c' where g: "cache_get (cache_codec w) c tg ?ck = (lk, c')"
        by (cases "cache_get (cache_codec w) c tg ?ck")
      show ?thesis
      proof (cases lk)
        case Miss
        with Some t1 c t2 True t3 g show ?thesis
          by (simp add: process_single_station_def Let_def P)
      next
        case (Hit v)
        show ?thesis
        proof (cases "cd_success v")
          case False
          with Some t1 c t2 True t3 g Hit show ?thesis
            by (simp add: process_single_station_def Let_def P)
        next
          case v: True
          obtain tn s4 where t4: "time_time w (s3\<lparr>batch_cache := Some c', cache_hits := cache_hits s3 + 1\<rparr>) = (tn, s4)"
            by (cases "time_time w (s3\<lparr>batch_cache := Some c', cache_hits := cache_hits s3 + 1\<rparr>)")
          from Some t1 c t2 True t3 g Hit v t4 show ?thesis
            by (simp add: process_single_station_def Let_def result_ok_def)
        qed
      qed
    qed
  qed
qed

lemma sequential_results:
  "map item_of (fst (process_multiple_stations_sequential w s items f u)) = items
   \<and> list_all (result_ok w f u) (fst (process_multiple_stations_sequential w s items f u))"
proof (induction items arbitrary: s)
  case Nil
  show ?case by simp
next
  case (Cons item rest)
  obtain sid yr where item: "item = (sid, yr)" by (cases item)
  obtain r s' where one: "process_single_station w s sid yr f u = (r, s')"
    by (cases "process_single_station w s sid yr f u")
  obtain rs s'' where more: "process_multiple_stations_sequential w s' rest f u = (rs, s'')"
    by (cases "process_multiple_stations_sequential w s' rest f u")
  have r: "item_of r = (sid, yr)" "result_ok w f u r"
    using process_single_station_key[of w s sid yr f u] process_single_station_ok[of w f u s sid yr] one
    by (simp_all add: item_of_def)
  from Cons.IH[of s'] more have "map item_of rs = rest" "list_all (result_ok w f u) rs"
    by simp_all
  with r item one more show ?case by simp
qed

lemma remove_nth_mset:
  "i < length xs \<Longrightarrow> mset (take i xs @ drop (Suc i) xs) + {#xs ! i#} = mset xs"
  by (metis add.commute add_mset_add_single append_take_drop_id id_take_nth_drop mset.simps(2)
            mset_append union_mset_add_mset_right)

lemma run_pool_Nil: "run_pool w s schedule [] f u = ([], s)"
  by (subst run_pool.simps) simp

lemma run_pool_results:
  "mset (map item_of (fst (run_pool w s schedule pending f u))) = mset pending
   \<and> list_all (result_ok w f u) (fst (run_pool w s schedule pending f u))"
proof (induction w s schedule pending f u rule: run_pool.induct)
  case (1 w s schedule pending f u)
  show ?case
  proof (cases "pending = []")
    case True
    then show ?thesis by (simp add: run_pool_Nil)
  next
    case False
    define i where "i = (case schedule of [] \<Rightarrow> 0 | n # _ \<Rightarrow> n mod length pending)"
    have i: "i < length pending"
      using False by (simp add: i_def split: list.split)
    obtain r s' where one: "process_single_station w s (fst (pending ! i)) (snd (pending ! i)) f u = (r, s')"
      by (cases "process_single_station w s (fst (pending ! i)) (snd (pending ! i)) f u")
    let ?rest = "take i pending @ drop (Suc i) pending"
    obtain rs s'' where more: "run_pool w s' (tl schedule) ?rest f u = (rs, s'')"
      by (cases "run_pool w s' (tl schedule) ?rest f u")
    have r: "item_of r = pending ! i" "result_ok w f u r"
      using process_single_station_key[of w s "fst (pending ! i)" "snd (pending ! i)" f u]
            process_single_station_ok[of w f u s "fst (pending ! i)" "snd (pending ! i)"] one
      by (simp_all add: item_of_def)
    have IH: "mset (map item_of rs) = mset ?rest" "list_all (result_ok w f u) rs"
      using "1.IH"[OF False i_def one[symmetric]] more by simp_all
    have res: "fst (run_pool w s schedule pending f u) = r # rs"
      using False one more by (subst run_pool.simps) (simp add: i_def[symmetric] Let_def)
    show ?thesis
      using r IH remove_nth_mset[OF i] by (simp add: res)
  qed
qed

lemma process_batch_shape:
  "process_batch w s0 items parallel mw f u schedule =
     (if parallel \<and> effective_workers w mw items \<le> 0 then Inl ''max_workers must be greater than 0''
      else
        (let s2 = s0\<lparr>ticks := Suc (ticks s0), cache_hits := 0, cache_misses := 0\<rparr>;
             rs = (if parallel then run_pool w s2 schedule items f u
                   else process_multiple_stations_sequential w s2 items f u);
             s4 = (snd rs)\<lparr>ticks := Suc (ticks (snd rs))\<rparr>
         in Inr (fst rs,
                 generate_batch_stats s4 (fst rs) (clock w (ticks (snd rs)) - clock w (ticks s0)),
                 s4)))"
  by (simp add: process_batch_def process_multiple_stations_parallel_def time_time_def Let_def
           split: prod.split)

section \<open>Batch statistics\<close>

text \<open>
  C8. For every list of results, the statistics \<open>generate_batch_stats\<close> builds
  have: the total equal to the number of results; successful and failed the
  numbers of results with and without the success flag, which add up to the
  total; the total time it was given; the average that time divided by the
  total (0 for no results); the record count the sum of \<open>data_records\<close> over
  the successful results only. And \<open>process_batch\<close>, unless the worker pool
  cannot be built, returns its results with the statistics of exactly these
  results, where the total time is the last clock reading of the call minus
  its first one: the wall-clock duration of the whole call, whatever the
  items' own durations.
\<close>

theorem batch_statistics:
  "(let st = generate_batch_stats s results tt
    in total_stations st = int (length results)
     \<and> successful st = int (length (filter success results))
     \<and> failed st = int (length (filter (\<lambda>r. \<not> success r) results))
     \<and> successful st + failed st = total_stations st
     \<and> total_time st = tt
     \<and> average_time_per_station st = (if results = [] then 0 else tt / real (length results))
     \<and> total_data_records st = sum_list (map data_records (filter success results)))
   \<and> (case process_batch w s0 items parallel mw f u schedule of
        Inl e \<Rightarrow> parallel \<and> effective_workers w mw items \<le> 0
      | Inr (results, stats, s') \<Rightarrow>
          stats = generate_batch_stats s' results (clock w (ticks s' - 1) - clock w (ticks s0)))"
proof -
  have "length (filter success results) + length (filter (\<lambda>r. \<not> success r) results)
        = length results"
    by (rule sum_length_filter_compl)
  then have 1: "int (length results) - int (length (filter success results))
              = int (length (filter (\<lambda>r. \<not> success r) results))"
    by linarith
  have A: "let st = generate_batch_stats s results tt
    in total_stations st = int (length results)
     \<and> successful st = int (length (filter success results))
     \<and> failed st = int (length (filter (\<lambda>r. \<not> success r) results))
     \<and> successful st + failed st = total_stations st
     \<and> total_time st = tt
     \<and> average_time_per_station st = (if results = [] then 0 else tt / real (length results))
     \<and> total_data_records st = sum_list (map data_records (filter success results))"
    using 1 by (simp add: generate_batch_stats_def Let_def)
  have B: "case process_batch w s0 items parallel mw f u schedule of
        Inl e \<Rightarrow> parallel \<and> effective_workers w mw items \<le> 0
      | Inr (results, stats, s') \<Rightarrow>
          stats = generate_batch_stats s' results (clock w (ticks s' - 1) - clock w (ticks s0))"
    by (simp add: process_batch_shape Let_def)
  from A B show ?thesis by (rule conjI)
qed

section \<open>The empty batch\<close>

text \<open>
  C10. With an empty list, in parallel mode (the default) and no explicit
  worker count, the effective worker count is \<open>min(max_workers, 0)\<close>, which is
  never positive: building the thread pool raises \<open>ValueError\<close> and
  \<open>process_batch\<close> raises with it, before any statistics are computed.
\<close>

theorem empty_batch_parallel_raises:
  "process_batch w s [] True None f u schedule = Inl ''max_workers must be greater than 0''"
  by (simp add: process_batch_shape effective_workers_def)

text \<open>
  The sequential path does what the claim says: no results, all counts 0, the
  average 0 by the guard of \<open>generate_batch_stats\<close>.
\<close>

lemma empty_batch_sequential:
  "process_batch w s [] False mw f u schedule =
     Inr ([],
          \<lparr>total_stations = 0, successful = 0, failed = 0,
           total_time = clock w (Suc (ticks s)) - clock w (ticks s),
           average_time_per_station = 0, total_data_records = 0,
           stats_cache_hits = 0, stats_cache_misses = 0\<rparr>,
          s\<lparr>ticks := Suc (Suc (ticks s)), cache_hits := 0, cache_misses := 0\<rparr>)"
  by (simp add: process_batch_shape generate_batch_stats_def Let_def)

section \<open>Failure isolation\<close>

text \<open>
  C2. \<open>process_batch\<close> does not always complete: on the empty list in parallel
  mode it raises (the defect of C10), while the sequential mode returns.
\<close>

theorem empty_parallel_batch_does_not_return:
  "\<not> normal_return (process_batch w s [] True None f u schedule)
   \<and> normal_return (process_batch w s [] False None f u schedule)"
  by (simp add: process_batch_shape effective_workers_def normal_return_def Let_def)

text \<open>
  Whenever the worker pool can be built (always in sequential mode), the rest of
  the claim holds: \<open>process_batch\<close> returns, with one result per item (in input
  order in sequential mode, in completion order in parallel mode); every
  failed result carries an error message that is not empty; and an item whose
  own pipeline succeeds has a successful result, whatever happens to the other
  items.
\<close>

lemma batch_isolates_failures:
  assumes pool: "parallel \<longrightarrow> 0 < effective_workers w mw items"
  shows "\<exists>results stats s'.
           process_batch w s0 items parallel mw f u schedule = Inr (results, stats, s')
         \<and> length results = length items
         \<and> mset (map item_of results) = mset items
         \<and> (\<not> parallel \<longrightarrow> map item_of results = items)
         \<and> (\<forall>r \<in> set results.
               (\<not> success r \<longrightarrow> (\<exists>m. error_message r = Some m \<and> m \<noteq> []))
             \<and> (pipeline_succeeds w (station_id r) (year r) f u \<longrightarrow> success r))"
proof -
  define s2 where "s2 = s0\<lparr>ticks := Suc (ticks s0), cache_hits := 0, cache_misses := 0\<rparr>"
  define rs where "rs = (if parallel then run_pool w s2 schedule items f u
                         else process_multiple_stations_sequential w s2 items f u)"
  define s4 where "s4 = (snd rs)\<lparr>ticks := Suc (ticks (snd rs))\<rparr>"
  have ret: "process_batch w s0 items parallel mw f u schedule
           = Inr (fst rs, generate_batch_stats s4 (fst rs)
                            (clock w (ticks (snd rs)) - clock w (ticks s0)), s4)"
  proof -
    from pool have "\<not> (parallel \<and> effective_workers w mw items \<le> 0)" by auto
    then show ?thesis
      by (simp add: process_batch_shape Let_def s2_def rs_def s4_def)
  qed
  have ms: "mset (map item_of (fst rs)) = mset items"
    and ok: "list_all (result_ok w f u) (fst rs)"
    and sq: "\<not> parallel \<longrightarrow> map item_of (fst rs) = items"
  proof -
    show "mset (map item_of (fst rs)) = mset items"
    proof (cases parallel)
      case True
      then show ?thesis
        using run_pool_results[of w s2 schedule items f u] by (simp add: rs_def)
    next
      case False
      with sequential_results[of w s2 items f u]
      have "map item_of (fst rs) = items" by (simp add: rs_def)
      then show ?thesis by (rule arg_cong)
    qed
    show "list_all (result_ok w f u) (fst rs)"
      using run_pool_results[of w s2 schedule items f u] sequential_results[of w s2 items f u]
      by (simp add: rs_def)
    show "\<not> parallel \<longrightarrow> map item_of (fst rs) = items"
      using sequential_results[of w s2 items f u] by (simp add: rs_def)
  qed
  from ms have len: "length (fst rs) = length items"
    by (metis length_map size_mset)
  have each: "\<forall>r \<in> set (fst rs).
               (\<not> success r \<longrightarrow> (\<exists>m. error_message r = Some m \<and> m \<noteq> []))
             \<and> (pipeline_succeeds w (station_id r) (year r) f u \<longrightarrow> success r)"
    using ok by (auto simp: list_all_iff result_ok_def)
  from ret len ms sq each show ?thesis by blast
qed

end
